theory Spec2Isabelle
  imports Main
begin

section \<open>Python values\<close>

text \<open>
  The values that travel through the two services: what \<open>response.json()\<close> hands back and
  what \<open>json.dumps\<close> is given. A \<open>str\<close> is a list of bytes (its UTF-8 encoding), a
  \<open>dict\<close> is an association list in insertion order, looked up from the front.

  A \<open>float\<close> is kept as what \<open>repr\<close> prints for it. A finite float is printed either
  without an exponent (\<open>Decimal\<close>: a sign, \<open>True\<close> for minus, the whole part and the digits
  after the point, as for the readings of \<open>time.time()\<close>) or with one (\<open>Scientific\<close>: sign,
  the digits before the point, the digits after it, none for \<open>1e+16\<close>, the sign of the
  exponent and its magnitude). The other floats are \<open>nan\<close>, \<open>inf\<close> and \<open>-inf\<close>.
\<close>

datatype pyfloat =
    Decimal bool nat "nat list"
  | Scientific bool nat "nat list" bool nat
  | NaN
  | Infinity bool

datatype pyval =
    PNone
  | PBool bool
  | PInt int
  | PFloat pyfloat
  | PStr string
  | PList "pyval list"
  | PDict "(string \<times> pyval) list"

datatype py_exn = UnboundLocalError | AttributeError | ValueError

text \<open>\<open>x.get(k, d)\<close>: only a dict has the method; on anything else the attribute
  lookup raises.\<close>

definition dict_get :: "pyval \<Rightarrow> string \<Rightarrow> pyval \<Rightarrow> py_exn + pyval" where
  "dict_get x k d =
     (case x of
        PDict kvs \<Rightarrow> Inr (case map_of kvs k of None \<Rightarrow> d | Some v \<Rightarrow> v)
      | _ \<Rightarrow> Inl AttributeError)"

text \<open>\<open>isinstance(x, dict) and k in x\<close>.\<close>

definition dict_has :: "pyval \<Rightarrow> string \<Rightarrow> bool" where
  "dict_has x k = (case x of PDict kvs \<Rightarrow> map_of kvs k \<noteq> None | _ \<Rightarrow> False)"

text \<open>Decimal digits of an integer, as \<open>str(int)\<close> and an f-string print them.\<close>

definition digit_char :: "nat \<Rightarrow> char" where
  "digit_char d = char_of (48 + d)"

fun digits :: "nat \<Rightarrow> string" where
  "digits n = (if n < 10 then [digit_char n] else digits (n div 10) @ [digit_char (n mod 10)])"

declare digits.simps [simp del]

definition str_int :: "int \<Rightarrow> string" where
  "str_int i = (if i < 0 then CHR ''-'' # digits (nat (- i)) else digits (nat i))"

text \<open>
  What an f-string field \<open>{v}\<close> prints: \<open>str(v)\<close>. For a \<open>str\<close> this is the string itself;
  for every other value of \<^typ>\<open>pyval\<close> it is \<open>repr(v)\<close>, a builtin of the interpreter that
  the model takes as the parameter \<open>rp\<close>.
\<close>

definition py_format :: "(pyval \<Rightarrow> string) \<Rightarrow> pyval \<Rightarrow> string" where
  "py_format rp v = (case v of PStr s \<Rightarrow> s | _ \<Rightarrow> rp v)"


section \<open>The task monitor (\<open>monitor_pve_task\<close> in \<open>main_mcp.py\<close>)\<close>

text \<open>
  \<open>PveApiClient\<close>: of its fields the monitor reads only \<open>is_authenticated\<close>. The global
  \<open>pve_client\<close> may be \<open>None\<close>.
\<close>

record pve_api_client =
  base_url :: string
  is_authenticated :: bool

text \<open>
  The world the loop runs in. Time is counted in milliseconds since \<open>start_time\<close>. It
  passes only inside \<open>time.sleep(2)\<close> and \<open>api_request\<close>; reading the clock takes no time
  and the clock never runs backwards. What the \<open>i\<close>-th round meets is a \<open>poll\<close>: the time
  spent in that round beyond the two seconds slept (oversleep plus the round trip of the
  request), and what \<open>api_request\<close> returned. The remote side is a function from the
  request path and the round number to the poll.
\<close>

record poll =
  poll_latency :: nat
  poll_response :: pyval

type_synonym remote = "string \<Rightarrow> nat \<Rightarrow> poll"

definition task_path :: "string \<Rightarrow> string \<Rightarrow> string" where
  "task_path node upid = ''/nodes/'' @ node @ ''/tasks/'' @ upid @ ''/status''"

text \<open>The four strings the function can return from inside or after the loop.\<close>

definition fetch_error_msg :: "(pyval \<Rightarrow> string) \<Rightarrow> string \<Rightarrow> pyval \<Rightarrow> string" where
  "fetch_error_msg rp upid response =
     ''ERROR: Failed to fetch task status for '' @ upid @ ''. Details: '' @ py_format rp response"

definition success_msg :: "(pyval \<Rightarrow> string) \<Rightarrow> string \<Rightarrow> pyval \<Rightarrow> string" where
  "success_msg rp upid exitstatus =
     ''SUCCESS: Task '' @ upid @ '' completed successfully. Exit status: '' @ py_format rp exitstatus"

definition failure_msg :: "(pyval \<Rightarrow> string) \<Rightarrow> string \<Rightarrow> pyval \<Rightarrow> string" where
  "failure_msg rp upid exitstatus =
     ''FAILURE: Task '' @ upid @ '' finished with error. Exit status: '' @ py_format rp exitstatus
       @ ''. Check PVE task log for details.''"

definition timeout_msg :: "(pyval \<Rightarrow> string) \<Rightarrow> string \<Rightarrow> int \<Rightarrow> pyval \<Rightarrow> string" where
  "timeout_msg rp upid timeout status =
     ''ERROR: Task '' @ upid @ '' timed out after '' @ str_int timeout
       @ '' seconds. Current status: '' @ py_format rp status"

text \<open>\<open>response is None or (isinstance(response, dict) and 'error' in response)\<close>.\<close>

definition fetch_failed :: "pyval \<Rightarrow> bool" where
  "fetch_failed response = (response = PNone \<or> dict_has response ''error'')"

text \<open>
  The three reads \<open>task_status = response.get('data', {})\<close>,
  \<open>status = task_status.get('status')\<close> and
  \<open>exitstatus = task_status.get('exitstatus', 'N/A')\<close>; each raises on a receiver that is
  not a dict.
\<close>

definition task_fields :: "pyval \<Rightarrow> py_exn + (pyval \<times> pyval)" where
  "task_fields response =
     (case dict_get response ''data'' (PDict []) of
        Inl e \<Rightarrow> Inl e
      | Inr task_status \<Rightarrow>
          (case dict_get task_status ''status'' PNone of
             Inl e \<Rightarrow> Inl e
           | Inr status \<Rightarrow>
               (case dict_get task_status ''exitstatus'' (PStr ''N/A'') of
                  Inl e \<Rightarrow> Inl e
                | Inr exitstatus \<Rightarrow> Inr (status, exitstatus))))"

text \<open>
  The loop body from the failure test down to the \<open>stopped\<close> test: either the function
  leaves (with a string or an exception), or the round ends with \<open>status\<close> bound and not
  \<open>'stopped'\<close>.
\<close>

datatype verdict = Leave "py_exn + string" | Running pyval

definition inspect :: "(pyval \<Rightarrow> string) \<Rightarrow> string \<Rightarrow> pyval \<Rightarrow> verdict" where
  "inspect rp upid response =
     (if fetch_failed response then Leave (Inr (fetch_error_msg rp upid response))
      else
        (case task_fields response of
           Inl e \<Rightarrow> Leave (Inl e)
         | Inr (status, exitstatus) \<Rightarrow>
             if status = PStr ''stopped'' then
               (if exitstatus = PStr ''OK'' then Leave (Inr (success_msg rp upid exitstatus))
                else Leave (Inr (failure_msg rp upid exitstatus)))
             else Running status))"

text \<open>
  The \<open>while\<close> loop. The state is the number \<open>n\<close> of requests sent so far, the clock
  \<open>elapsed\<close>, and the local \<open>status\<close> (\<open>None\<close> while it is unbound). The result pairs what
  the function returns or raises with the number of requests it has sent.
\<close>

function monitor_loop ::
  "(pyval \<Rightarrow> string) \<Rightarrow> (nat \<Rightarrow> poll) \<Rightarrow> string \<Rightarrow> int \<Rightarrow> nat \<Rightarrow> nat \<Rightarrow> pyval option
     \<Rightarrow> (py_exn + string) \<times> nat" where
  "monitor_loop rp env upid timeout n elapsed status =
     (if int elapsed < timeout * 1000 then
        (case inspect rp upid (poll_response (env n)) of
           Leave r \<Rightarrow> (r, Suc n)
         | Running st \<Rightarrow>
             if int (elapsed + 2000 + poll_latency (env n)) > timeout * 1000
             then (Inr (timeout_msg rp upid timeout st), Suc n)
             else monitor_loop rp env upid timeout (Suc n)
                    (elapsed + 2000 + poll_latency (env n)) (Some st))
      else
        (case status of
           None \<Rightarrow> (Inl UnboundLocalError, n)
         | Some st \<Rightarrow> (Inr (timeout_msg rp upid timeout st), n)))"
  by pat_completeness auto
termination
  by (relation "measure (\<lambda>(rp, env, upid, timeout, n, elapsed, status).
        nat (timeout * 1000 - int elapsed))") auto

declare monitor_loop.simps [simp del]

definition monitor_pve_task ::
  "(pyval \<Rightarrow> string) \<Rightarrow> pve_api_client option \<Rightarrow> remote \<Rightarrow> string \<Rightarrow> string \<Rightarrow> int
     \<Rightarrow> (py_exn + string) \<times> nat" where
  "monitor_pve_task rp pve_client remote node upid timeout =
     (case pve_client of
        None \<Rightarrow> (Inr ''ERROR: PVE client is not initialized or authenticated.'', 0)
      | Some c \<Rightarrow>
          if \<not> is_authenticated c
          then (Inr ''ERROR: PVE client is not initialized or authenticated.'', 0)
          else monitor_loop rp (remote (task_path node upid)) upid timeout 0 0 None)"

text \<open>
  The variant the design notes ask for: the deadline is tested once per round, in the loop
  condition only; the test after the status query is gone.
\<close>

function monitor_loop_collapsed ::
  "(pyval \<Rightarrow> string) \<Rightarrow> (nat \<Rightarrow> poll) \<Rightarrow> string \<Rightarrow> int \<Rightarrow> nat \<Rightarrow> nat \<Rightarrow> pyval option
     \<Rightarrow> (py_exn + string) \<times> nat" where
  "monitor_loop_collapsed rp env upid timeout n elapsed status =
     (if int elapsed < timeout * 1000 then
        (case inspect rp upid (poll_response (env n)) of
           Leave r \<Rightarrow> (r, Suc n)
         | Running st \<Rightarrow>
             monitor_loop_collapsed rp env upid timeout (Suc n)
               (elapsed + 2000 + poll_latency (env n)) (Some st))
      else
        (case status of
           None \<Rightarrow> (Inl UnboundLocalError, n)
         | Some st \<Rightarrow> (Inr (timeout_msg rp upid timeout st), n)))"
  by pat_completeness auto
termination
  by (relation "measure (\<lambda>(rp, env, upid, timeout, n, elapsed, status).
        nat (timeout * 1000 - int elapsed))") auto

declare monitor_loop_collapsed.simps [simp del]

definition monitor_pve_task_collapsed ::
  "(pyval \<Rightarrow> string) \<Rightarrow> pve_api_client option \<Rightarrow> remote \<Rightarrow> string \<Rightarrow> string \<Rightarrow> int
     \<Rightarrow> (py_exn + string) \<times> nat" where
  "monitor_pve_task_collapsed rp pve_client remote node upid timeout =
     (case pve_client of
        None \<Rightarrow> (Inr ''ERROR: PVE client is not initialized or authenticated.'', 0)
      | Some c \<Rightarrow>
          if \<not> is_authenticated c
          then (Inr ''ERROR: PVE client is not initialized or authenticated.'', 0)
          else monitor_loop_collapsed rp (remote (task_path node upid)) upid timeout 0 0 None)"

text \<open>The clock at the start of round \<open>k\<close>, and the value of \<open>status\<close> there, on a run
  whose earlier rounds all ended with the task still running.\<close>

fun clock_at :: "(nat \<Rightarrow> poll) \<Rightarrow> nat \<Rightarrow> nat" where
  "clock_at env 0 = 0"
| "clock_at env (Suc k) = clock_at env k + 2000 + poll_latency (env k)"

fun status_at :: "(pyval \<Rightarrow> string) \<Rightarrow> string \<Rightarrow> (nat \<Rightarrow> poll) \<Rightarrow> nat \<Rightarrow> pyval option" where
  "status_at rp upid env 0 = None"
| "status_at rp upid env (Suc k) =
     (case inspect rp upid (poll_response (env k)) of Running st \<Rightarrow> Some st | Leave r \<Rightarrow> None)"

text \<open>A round that neither fails nor finds the task stopped.\<close>

definition still_running :: "pyval \<Rightarrow> bool" where
  "still_running response =
     (\<not> fetch_failed response \<and>
      (case task_fields response of Inl e \<Rightarrow> False | Inr (status, exitstatus) \<Rightarrow> status \<noteq> PStr ''stopped''))"

text \<open>A well-formed answer of the status endpoint with the given two fields.\<close>

definition task_response :: "string \<Rightarrow> string \<Rightarrow> pyval" where
  "task_response status exitstatus =
     PDict [(''data'', PDict [(''status'', PStr status), (''exitstatus'', PStr exitstatus)])]"


text \<open>Three remote sides used to run the monitor on concrete inputs: a task that is
  running twice and then stopped with exit status OK, a task that never stops, and a status
  endpoint whose second answer is the error dict of \<open>api_request\<close>. None of them adds
  latency.\<close>

definition remote_stops_third :: remote where
  "remote_stops_third path i =
     (if i < 2 then \<lparr>poll_latency = 0, poll_response = task_response ''running'' ''''\<rparr>
      else \<lparr>poll_latency = 0, poll_response = task_response ''stopped'' ''OK''\<rparr>)"

definition remote_never_stops :: remote where
  "remote_never_stops path i = \<lparr>poll_latency = 0, poll_response = task_response ''running'' ''''\<rparr>"

definition remote_fails_second :: remote where
  "remote_fails_second path i =
     (if i < 1 then \<lparr>poll_latency = 0, poll_response = task_response ''running'' ''''\<rparr>
      else \<lparr>poll_latency = 0, poll_response = PDict [(''error'', PStr ''Request failed'')]\<rparr>)"

definition remote_fails_third :: remote where
  "remote_fails_third path i =
     (if i < 2 then \<lparr>poll_latency = 0, poll_response = task_response ''running'' ''''\<rparr>
      else \<lparr>poll_latency = 0, poll_response = task_response ''stopped'' ''start failed''\<rparr>)"

text \<open>A stand-in for the interpreter's \<open>repr\<close> on the concrete runs.\<close>

definition demo_repr :: "pyval \<Rightarrow> string" where
  "demo_repr v = ''?''"

definition client_ok :: pve_api_client where
  "client_ok = \<lparr>base_url = ''https://pve:8006/api2/json'', is_authenticated = True\<rparr>"


section \<open>\<open>json.dumps\<close> and JSON text\<close>

text \<open>
  \<open>json.dumps(v, ensure_ascii=False)\<close> of the standard library, with its default
  separators \<open>", "\<close> and \<open>": "\<close>. In a string it escapes the quote, the backslash and
  the control characters below \<open>0x20\<close> (\<open>\n\<close>, \<open>\r\<close>, \<open>\t\<close>, \<open>\b\<close>, \<open>\f\<close> by
  their short forms, the others as \<open>\u00XX\<close> in lower-case hexadecimal) and copies every
  other byte.
\<close>

definition hex_char :: "nat \<Rightarrow> char" where
  "hex_char d = (if d < 10 then char_of (48 + d) else char_of (87 + d))"

definition esc_char :: "char \<Rightarrow> string" where
  "esc_char c =
     (if c = CHR 0x22 then [CHR 0x5C, CHR 0x22]
      else if c = CHR 0x5C then [CHR 0x5C, CHR 0x5C]
      else if c = CHR 0x0A then [CHR 0x5C, CHR ''n'']
      else if c = CHR 0x0D then [CHR 0x5C, CHR ''r'']
      else if c = CHR 0x09 then [CHR 0x5C, CHR ''t'']
      else if c = CHR 0x08 then [CHR 0x5C, CHR ''b'']
      else if c = CHR 0x0C then [CHR 0x5C, CHR ''f'']
      else if (of_char c :: nat) < 0x20
        then [CHR 0x5C, CHR ''u'', CHR ''0'', CHR ''0'',
              hex_char ((of_char c :: nat) div 16), hex_char ((of_char c :: nat) mod 16)]
      else [c])"

definition dumps_str :: "string \<Rightarrow> string" where
  "dumps_str s = CHR 0x22 # concat (map esc_char s) @ [CHR 0x22]"

text \<open>
  \<open>float.__repr__\<close> of a finite float, in its two forms: \<open>-12.5\<close>, \<open>3.0\<close> and
  \<open>1e+16\<close>, \<open>-1.5e-07\<close>; the exponent has at least two digits.
\<close>

definition repr_decimal :: "bool \<Rightarrow> nat \<Rightarrow> nat list \<Rightarrow> string" where
  "repr_decimal neg whole frac =
     (if neg then ''-'' else '''') @ digits whole @ ''.'' @
     (if frac = [] then ''0'' else map (\<lambda>d. digit_char (d mod 10)) frac)"

definition repr_scientific :: "bool \<Rightarrow> nat \<Rightarrow> nat list \<Rightarrow> bool \<Rightarrow> nat \<Rightarrow> string" where
  "repr_scientific neg whole frac eneg e =
     (if neg then ''-'' else '''') @ digits whole @
     (if frac = [] then '''' else ''.'' @ map (\<lambda>d. digit_char (d mod 10)) frac) @
     ''e'' @ (if eneg then ''-'' else ''+'') @ (if e < 10 then ''0'' else '''') @ digits e"

text \<open>
  \<open>floatstr\<close> of \<open>json.encoder\<close>: the encoder is made with the default \<open>allow_nan=True\<close>, so
  the floats that are not finite are printed as \<open>NaN\<close>, \<open>Infinity\<close> and \<open>-Infinity\<close>
  instead of raising \<open>ValueError\<close>; every other float is printed by \<open>float.__repr__\<close>.
\<close>

fun dumps_float :: "pyfloat \<Rightarrow> string" where
  "dumps_float NaN = ''NaN''"
| "dumps_float (Infinity neg) = (if neg then ''-Infinity'' else ''Infinity'')"
| "dumps_float (Decimal neg whole frac) = repr_decimal neg whole frac"
| "dumps_float (Scientific neg whole frac eneg e) = repr_scientific neg whole frac eneg e"

fun dumps :: "pyval \<Rightarrow> string"
  and dumps_items :: "pyval list \<Rightarrow> string"
  and dumps_pairs :: "(string \<times> pyval) list \<Rightarrow> string" where
  "dumps PNone = ''null''"
| "dumps (PBool b) = (if b then ''true'' else ''false'')"
| "dumps (PInt i) = str_int i"
| "dumps (PFloat x) = dumps_float x"
| "dumps (PStr s) = dumps_str s"
| "dumps (PList xs) = ''['' @ dumps_items xs @ '']''"
| "dumps (PDict kvs) = ''{'' @ dumps_pairs kvs @ ''}''"
| "dumps_items [] = []"
| "dumps_items (x # xs) = dumps x @ (if xs = [] then [] else '', '' @ dumps_items xs)"
| "dumps_pairs [] = []"
| "dumps_pairs ((k, v) # kvs) =
     dumps_str k @ '': '' @ dumps v @ (if kvs = [] then [] else '', '' @ dumps_pairs kvs)"

text \<open>
  A recogniser for the JSON grammar of RFC 8259 on bytes: white space, strings with their
  escapes, numbers, the three literals, arrays and objects. Each function returns the
  input left behind what it accepted, or \<open>None\<close>. The recursion on values runs on fuel;
  \<open>json_valid\<close> gives it more than the length of the text, which is more than any
  nesting in it.
\<close>

definition is_ws :: "char \<Rightarrow> bool" where
  "is_ws c = (c = CHR 0x20 \<or> c = CHR 0x09 \<or> c = CHR 0x0A \<or> c = CHR 0x0D)"

definition skip_ws :: "string \<Rightarrow> string" where
  "skip_ws cs = dropWhile is_ws cs"

definition is_digit :: "char \<Rightarrow> bool" where
  "is_digit c = (48 \<le> (of_char c :: nat) \<and> (of_char c :: nat) \<le> 57)"

definition is_hex :: "char \<Rightarrow> bool" where
  "is_hex c = (is_digit c \<or> (65 \<le> (of_char c :: nat) \<and> (of_char c :: nat) \<le> 70)
                \<or> (97 \<le> (of_char c :: nat) \<and> (of_char c :: nat) \<le> 102))"

fun p_chars :: "string \<Rightarrow> string option" where
  "p_chars [] = None"
| "p_chars (c # cs) =
     (if c = CHR 0x22 then Some cs
      else if c = CHR 0x5C then
        (case cs of
           [] \<Rightarrow> None
         | e # r \<Rightarrow>
             if e \<in> set [CHR 0x22, CHR 0x5C, CHR ''/'', CHR ''b'', CHR ''f'', CHR ''n'', CHR ''r'', CHR ''t'']
             then p_chars r
             else if e = CHR ''u'' then
               (case r of
                  h1 # h2 # h3 # h4 # r' \<Rightarrow>
                    if is_hex h1 \<and> is_hex h2 \<and> is_hex h3 \<and> is_hex h4 then p_chars r' else None
                | _ \<Rightarrow> None)
             else None)
      else if (of_char c :: nat) < 0x20 then None
      else p_chars cs)"

definition p_exp :: "string \<Rightarrow> string option" where
  "p_exp cs =
     (case cs of
        [] \<Rightarrow> Some []
      | e # r \<Rightarrow>
          if e = CHR ''e'' \<or> e = CHR ''E'' then
            (case (case r of [] \<Rightarrow> [] | s # r' \<Rightarrow> if s = CHR ''+'' \<or> s = CHR ''-'' then r' else r) of
               [] \<Rightarrow> None
             | d # r2 \<Rightarrow> if is_digit d then Some (dropWhile is_digit r2) else None)
          else Some cs)"

definition p_frac :: "string \<Rightarrow> string option" where
  "p_frac cs =
     (case cs of
        [] \<Rightarrow> Some []
      | c # r \<Rightarrow>
          if c = CHR ''.'' then
            (case r of
               [] \<Rightarrow> None
             | d # r' \<Rightarrow> if is_digit d then p_exp (dropWhile is_digit r') else None)
          else p_exp cs)"

definition p_number :: "string \<Rightarrow> string option" where
  "p_number cs =
     (case (case cs of [] \<Rightarrow> [] | s # r \<Rightarrow> if s = CHR ''-'' then r else cs) of
        [] \<Rightarrow> None
      | d # r \<Rightarrow>
          if d = CHR ''0'' then p_frac r
          else if is_digit d then p_frac (dropWhile is_digit r)
          else None)"

definition p_literal :: "string \<Rightarrow> string option" where
  "p_literal cs =
     (if take 4 cs = ''null'' \<or> take 4 cs = ''true'' then Some (drop 4 cs)
      else if take 5 cs = ''false'' then Some (drop 5 cs)
      else None)"

fun p_value :: "nat \<Rightarrow> string \<Rightarrow> string option"
  and p_elems :: "nat \<Rightarrow> string \<Rightarrow> string option"
  and p_members :: "nat \<Rightarrow> string \<Rightarrow> string option" where
  "p_value 0 cs = None"
| "p_value (Suc n) cs =
     (case cs of
        [] \<Rightarrow> None
      | c # r \<Rightarrow>
          if c = CHR 0x22 then p_chars r
          else if c = CHR ''['' then
            (case skip_ws r of
               [] \<Rightarrow> None
             | c' # r' \<Rightarrow> if c' = CHR '']'' then Some r' else p_elems n (c' # r'))
          else if c = CHR ''{'' then
            (case skip_ws r of
               [] \<Rightarrow> None
             | c' # r' \<Rightarrow> if c' = CHR ''}'' then Some r' else p_members n (c' # r'))
          else if c = CHR ''n'' \<or> c = CHR ''t'' \<or> c = CHR ''f'' then p_literal cs
          else p_number cs)"
| "p_elems 0 cs = None"
| "p_elems (Suc n) cs =
     (case p_value n cs of
        None \<Rightarrow> None
      | Some r \<Rightarrow>
          (case skip_ws r of
             [] \<Rightarrow> None
           | c # r' \<Rightarrow>
               if c = CHR '','' then p_elems n (skip_ws r')
               else if c = CHR '']'' then Some r'
               else None))"
| "p_members 0 cs = None"
| "p_members (Suc n) cs =
     (case cs of
        [] \<Rightarrow> None
      | q # r \<Rightarrow>
          if q = CHR 0x22 then
            (case p_chars r of
               None \<Rightarrow> None
             | Some r1 \<Rightarrow>
                 (case skip_ws r1 of
                    [] \<Rightarrow> None
                  | c # r2 \<Rightarrow>
                      if c = CHR '':'' then
                        (case p_value n (skip_ws r2) of
                           None \<Rightarrow> None
                         | Some r3 \<Rightarrow>
                             (case skip_ws r3 of
                                [] \<Rightarrow> None
                              | c' # r4 \<Rightarrow>
                                  if c' = CHR '','' then p_members n (skip_ws r4)
                                  else if c' = CHR ''}'' then Some r4
                                  else None))
                      else None))
          else None)"

definition json_valid :: "string \<Rightarrow> bool" where
  "json_valid s =
     (case p_value (Suc (length s)) (skip_ws s) of
        None \<Rightarrow> False
      | Some r \<Rightarrow> skip_ws r = [])"

text \<open>What may follow a value inside an array or object, and the first character of
  a value: two notions the proof of validity is stated with.\<close>

text \<open>\<open>math.isfinite\<close>, and the values in which every float is finite.\<close>

fun isfinite :: "pyfloat \<Rightarrow> bool" where
  "isfinite (Decimal neg whole frac) = True"
| "isfinite (Scientific neg whole frac eneg e) = True"
| "isfinite NaN = False"
| "isfinite (Infinity neg) = False"

fun finite_floats :: "pyval \<Rightarrow> bool"
  and finite_items :: "pyval list \<Rightarrow> bool"
  and finite_pairs :: "(string \<times> pyval) list \<Rightarrow> bool" where
  "finite_floats PNone = True"
| "finite_floats (PBool b) = True"
| "finite_floats (PInt i) = True"
| "finite_floats (PFloat x) = isfinite x"
| "finite_floats (PStr s) = True"
| "finite_floats (PList xs) = finite_items xs"
| "finite_floats (PDict kvs) = finite_pairs kvs"
| "finite_items [] = True"
| "finite_items (x # xs) = (finite_floats x \<and> finite_items xs)"
| "finite_pairs [] = True"
| "finite_pairs ((k, v) # kvs) = (finite_floats v \<and> finite_pairs kvs)"

definition ok_rest :: "string \<Rightarrow> bool" where
  "ok_rest rest = (case rest of [] \<Rightarrow> True | c # cs \<Rightarrow> c = CHR '','' \<or> c = CHR '']'' \<or> c = CHR ''}'')"

definition opens_value :: "char \<Rightarrow> bool" where
  "opens_value c = (\<not> is_ws c \<and> c \<noteq> CHR '']'' \<and> c \<noteq> CHR ''}'' \<and> c \<noteq> CHR '','')"


section \<open>The event bus (\<open>MONITOR_QUEUES\<close> and \<open>broadcast_event\<close> in \<open>agent.py\<close>)\<close>

text \<open>
  \<open>MONITOR_QUEUES\<close> is a global list of \<open>asyncio.Queue\<close> objects. A queue object is
  named by a number; \<open>contents\<close> is the heap that holds what each queue has buffered,
  oldest first, and \<open>fresh\<close> is the next unused name. The queues are created without a
  size limit, so \<open>put\<close> never waits, and a call of \<open>broadcast_event\<close> runs to its end
  without giving up control: the calls of all requests form one sequence.
\<close>

record bus =
  queues :: "nat list"
  contents :: "nat \<Rightarrow> pyval list"
  fresh :: nat

definition queue_put :: "nat \<Rightarrow> pyval \<Rightarrow> bus \<Rightarrow> bus" where
  "queue_put q item b = b\<lparr>contents := (contents b)(q := contents b q @ [item])\<rparr>"

text \<open>\<open>q.get()\<close>: the oldest item, or \<open>None\<close> when the queue is empty and the caller
  would wait.\<close>

definition queue_get :: "nat \<Rightarrow> bus \<Rightarrow> (pyval \<times> bus) option" where
  "queue_get q b =
     (case contents b q of
        [] \<Rightarrow> None
      | item # items \<Rightarrow> Some (item, b\<lparr>contents := (contents b)(q := items)\<rparr>))"

text \<open>\<open>for q in MONITOR_QUEUES: await q.put(event_data)\<close>.\<close>

definition broadcast_event :: "pyval \<Rightarrow> bus \<Rightarrow> bus" where
  "broadcast_event event_data b = fold (\<lambda>q. queue_put q event_data) (queues b) b"

text \<open>\<open>monitor_endpoint\<close>: \<open>q = asyncio.Queue(); MONITOR_QUEUES.append(q)\<close>. It returns
  the new queue, which the response's \<open>monitor_generator\<close> then reads.\<close>

definition monitor_endpoint :: "bus \<Rightarrow> nat \<times> bus" where
  "monitor_endpoint b =
     (fresh b,
      b\<lparr>queues := queues b @ [fresh b],
        contents := (contents b)(fresh b := []),
        fresh := Suc (fresh b)\<rparr>)"

text \<open>The handler of \<open>asyncio.CancelledError\<close> in \<open>monitor_generator\<close>:
  \<open>MONITOR_QUEUES.remove(q)\<close>. \<open>list.remove\<close> deletes the first occurrence and raises
  \<open>ValueError\<close> when there is none.\<close>

definition monitor_cancelled :: "nat \<Rightarrow> bus \<Rightarrow> py_exn + bus" where
  "monitor_cancelled q b =
     (if q \<in> set (queues b) then Inr (b\<lparr>queues := remove1 q (queues b)\<rparr>)
      else Inl ValueError)"

text \<open>What holds of every bus that the endpoints can build: the registered queues are
  different objects, each made before the next unused name.\<close>

definition bus_ok :: "bus \<Rightarrow> bool" where
  "bus_ok b = (distinct (queues b) \<and> list_all (\<lambda>q. q < fresh b) (queues b))"


section \<open>Frames and JSON text\<close>

text \<open>
  A frame as the two generators build it: an optional \<open>event:\<close> label and the data. The
  data is either a value handed to \<open>json.dumps\<close> or a fixed text. \<open>wire\<close> is the string
  that is yielded.
\<close>

datatype payload = Json pyval | Text string

record frame =
  frame_label :: "string option"
  frame_data :: payload

fun data_text :: "payload \<Rightarrow> string" where
  "data_text (Json v) = dumps v"
| "data_text (Text s) = s"

text \<open>A payload without a float that is not finite.\<close>

fun finite_payload :: "payload \<Rightarrow> bool" where
  "finite_payload (Json v) = finite_floats v"
| "finite_payload (Text s) = True"

definition wire :: "frame \<Rightarrow> string" where
  "wire f =
     (case frame_label f of None \<Rightarrow> [] | Some l \<Rightarrow> ''event: '' @ l @ [CHR 0x0A])
     @ ''data: '' @ data_text (frame_data f) @ [CHR 0x0A, CHR 0x0A]"

text \<open>\<open>monitor_generator\<close>: \<open>yield f"data: {json.dumps(data, ensure_ascii=False)}\n\n"\<close>.\<close>

definition monitor_frame :: "pyval \<Rightarrow> frame" where
  "monitor_frame data = \<lparr>frame_label = None, frame_data = Json data\<rparr>"

text \<open>The reading loop of \<open>monitor_generator\<close>, run until \<open>q.get()\<close> would wait: the
  frames it yields and the bus it leaves.\<close>

function monitor_generator :: "nat \<Rightarrow> bus \<Rightarrow> frame list \<times> bus" where
  "monitor_generator q b =
     (case queue_get q b of
        None \<Rightarrow> ([], b)
      | Some (data, b') \<Rightarrow>
          (case monitor_generator q b' of (frames, b'') \<Rightarrow> (monitor_frame data # frames, b'')))"
  by pat_completeness auto
termination
  by (relation "measure (\<lambda>(q, b). length (contents b q))")
    (auto simp: queue_get_def split: list.splits)

declare monitor_generator.simps [simp del]


section \<open>The request stream (\<open>sse_generator\<close> in \<open>agent.py\<close>)\<close>

text \<open>
  What the agent's stream hands over. A step is the list \<open>step.values()\<close> of updates; an
  update may have the keys \<open>messages\<close>, \<open>tool_calls\<close> and \<open>structured_response\<close> (of the
  latter only the field \<open>Answer\<close> is read). A message is an \<open>AIMessage\<close> with its content,
  a \<open>ToolMessage\<close> with name, content and \<open>tool_call_id\<close>, or of some other class. The
  stream ends normally or by raising; what is raised is an instance of \<open>Exception\<close> or of
  \<open>BaseException\<close> only (\<open>asyncio.CancelledError\<close>, \<open>KeyboardInterrupt\<close>), each given
  with its \<open>str(e)\<close>.
\<close>

datatype message = AIMessage pyval | ToolMessage pyval pyval pyval | OtherMessage

datatype tool_call = ToolCall pyval pyval

record update =
  messages :: "message list option"
  tool_calls :: "tool_call list option"
  structured_response :: "pyval option"

datatype py_raise = Exception string | BaseException string

datatype ending = Finished | Raised py_raise

type_synonym agent = "string \<Rightarrow> int \<Rightarrow> update list list \<times> ending"

text \<open>What a run of the generator does, in order: it yields a frame to the caller or it
  calls \<open>broadcast_event\<close>. A run ends by returning or by letting an exception through.\<close>

datatype action = Yield frame | Broadcast pyval

datatype outcome = Returned | Propagated py_raise

fun is_broadcast :: "action \<Rightarrow> bool" where
  "is_broadcast (Broadcast e) = True"
| "is_broadcast (Yield f) = False"

definition broadcasts :: "action list \<Rightarrow> nat" where
  "broadcasts as = length (filter is_broadcast as)"

text \<open>Python's truth value of an object, and the class name in the message of an
  \<open>AttributeError\<close>.\<close>

fun float_truthy :: "pyfloat \<Rightarrow> bool" where
  "float_truthy (Decimal neg whole frac) = (whole \<noteq> 0 \<or> list_ex (\<lambda>d. d mod 10 \<noteq> 0) frac)"
| "float_truthy (Scientific neg whole frac eneg e) =
     (whole \<noteq> 0 \<or> list_ex (\<lambda>d. d mod 10 \<noteq> 0) frac)"
| "float_truthy NaN = True"
| "float_truthy (Infinity neg) = True"

fun truthy :: "pyval \<Rightarrow> bool" where
  "truthy PNone = False"
| "truthy (PBool b) = b"
| "truthy (PInt i) = (i \<noteq> 0)"
| "truthy (PFloat x) = float_truthy x"
| "truthy (PStr s) = (s \<noteq> [])"
| "truthy (PList xs) = (xs \<noteq> [])"
| "truthy (PDict kvs) = (kvs \<noteq> [])"

fun type_name :: "pyval \<Rightarrow> string" where
  "type_name PNone = ''NoneType''"
| "type_name (PBool b) = ''bool''"
| "type_name (PInt i) = ''int''"
| "type_name (PFloat x) = ''float''"
| "type_name (PStr s) = ''str''"
| "type_name (PList xs) = ''list''"
| "type_name (PDict kvs) = ''dict''"

text \<open>\<open>str(e)\<close> of the \<open>AttributeError\<close> for a missing attribute.\<close>

definition no_attribute :: "string \<Rightarrow> string \<Rightarrow> string" where
  "no_attribute cls attr =
     [CHR 0x27] @ cls @ [CHR 0x27] @ '' object has no attribute '' @ [CHR 0x27] @ attr @ [CHR 0x27]"

definition startswith :: "string \<Rightarrow> string \<Rightarrow> bool" where
  "startswith s p = (take (length p) s = p)"

text \<open>The dict passed to \<open>broadcast_event\<close>. Each one reads \<open>time.time()\<close>; the \<open>k\<close>-th
  reading of a run is \<open>clk k\<close>.\<close>

definition event :: "(nat \<Rightarrow> pyval) \<Rightarrow> nat \<Rightarrow> int \<Rightarrow> (string \<times> pyval) list \<Rightarrow> pyval" where
  "event clk k thread_id kvs =
     PDict ([(''timestamp'', clk k), (''thread_id'', PInt thread_id)] @ kvs)"

definition data_frame :: "(string \<times> pyval) list \<Rightarrow> frame" where
  "data_frame kvs = \<lparr>frame_label = None, frame_data = Json (PDict kvs)\<rparr>"

definition start_text :: string where
  "start_text = [CHR 0xE5, CHR 0xBC, CHR 0x80, CHR 0xE5, CHR 0xA7, CHR 0x8B, CHR 0xE5, CHR 0xA4,
                 CHR 0x84, CHR 0xE7, CHR 0x90, CHR 0x86, CHR 0x2E, CHR 0x2E, CHR 0x2E]"

definition start_frame :: frame where
  "start_frame = \<lparr>frame_label = Some ''start'', frame_data = Text start_text\<rparr>"

definition done_frame :: frame where
  "done_frame = \<lparr>frame_label = Some ''done'', frame_data = Text ''[DONE]''\<rparr>"

definition result_frame :: "pyval \<Rightarrow> frame" where
  "result_frame answer =
     \<lparr>frame_label = Some ''result'',
      frame_data = Json (PDict [(''type'', PStr ''answer''), (''content'', answer)])\<rparr>"

definition error_frame :: "string \<Rightarrow> frame" where
  "error_frame detail =
     \<lparr>frame_label = Some ''error'',
      frame_data = Json (PDict [(''type'', PStr ''error''), (''content'', PStr detail)])\<rparr>"

text \<open>A \<open>for\<close> loop whose body may raise: the actions up to the raise, and what was
  raised. \<open>k\<close> counts the clock readings made so far.\<close>

fun for_each ::
  "(nat \<Rightarrow> 'a \<Rightarrow> action list \<times> py_raise option) \<Rightarrow> nat \<Rightarrow> 'a list
     \<Rightarrow> action list \<times> py_raise option" where
  "for_each body k [] = ([], None)"
| "for_each body k (x # xs) =
     (case body k x of
        (as, Some e) \<Rightarrow> (as, Some e)
      | (as, None) \<Rightarrow>
          (case for_each body (k + broadcasts as) xs of (bs, r) \<Rightarrow> (as @ bs, r)))"

text \<open>The body of \<open>for message in update["messages"]\<close>.\<close>

fun on_message :: "(nat \<Rightarrow> pyval) \<Rightarrow> int \<Rightarrow> nat \<Rightarrow> message \<Rightarrow> action list \<times> py_raise option" where
  "on_message clk thread_id k (AIMessage content) =
     (if truthy content then
        (case content of
           PStr s \<Rightarrow>
             if startswith s ''Returning structured response'' then ([], None)
             else
               ([Yield (data_frame [(''type'', PStr ''thought''), (''content'', content)]),
                 Broadcast (event clk k thread_id
                   [(''type'', PStr ''thought''), (''content'', content)])],
                None)
         | _ \<Rightarrow>
             ([], Some (Exception (no_attribute (type_name content) ''startswith''))))
      else ([], None))"
| "on_message clk thread_id k (ToolMessage name content tool_call_id) =
     ([Yield (data_frame
         [(''type'', PStr ''tool_result''), (''name'', name), (''content'', content),
          (''tool_call_id'', tool_call_id)]),
       Broadcast (event clk k thread_id
         [(''type'', PStr ''tool_result''), (''name'', name), (''content'', content),
          (''tool_call_id'', tool_call_id)])],
      None)"
| "on_message clk thread_id k OtherMessage = ([], None)"

text \<open>The body of \<open>for call in update["tool_calls"]\<close>.\<close>

fun on_tool_call :: "(nat \<Rightarrow> pyval) \<Rightarrow> int \<Rightarrow> nat \<Rightarrow> tool_call \<Rightarrow> action list \<times> py_raise option" where
  "on_tool_call clk thread_id k (ToolCall name args) =
     ([Yield (data_frame [(''type'', PStr ''tool_call''), (''name'', name), (''args'', args)]),
       Broadcast (event clk k thread_id
         [(''type'', PStr ''tool_call''), (''name'', name), (''args'', args)])],
      None)"

text \<open>The last of the three tests on an update: \<open>if "structured_response" in update\<close>.\<close>

definition on_structured_response ::
  "(nat \<Rightarrow> pyval) \<Rightarrow> int \<Rightarrow> nat \<Rightarrow> pyval option \<Rightarrow> action list \<times> py_raise option" where
  "on_structured_response clk thread_id k r =
     (case r of
        None \<Rightarrow> ([], None)
      | Some answer \<Rightarrow>
          ([Yield (result_frame answer),
            Broadcast (event clk k thread_id [(''type'', PStr ''answer''), (''content'', answer)])],
           None))"

text \<open>Two statements in sequence, the second skipped when the first raises.\<close>

definition and_then ::
  "action list \<times> py_raise option \<Rightarrow> (nat \<Rightarrow> action list \<times> py_raise option) \<Rightarrow> nat
     \<Rightarrow> action list \<times> py_raise option" where
  "and_then first second k =
     (case first of
        (as, Some e) \<Rightarrow> (as, Some e)
      | (as, None) \<Rightarrow> (case second (k + broadcasts as) of (bs, r) \<Rightarrow> (as @ bs, r)))"

text \<open>The body of \<open>for update in step.values()\<close>.\<close>

definition on_update :: "(nat \<Rightarrow> pyval) \<Rightarrow> int \<Rightarrow> nat \<Rightarrow> update \<Rightarrow> action list \<times> py_raise option" where
  "on_update clk thread_id k u =
     and_then
       (case messages u of
          None \<Rightarrow> ([], None)
        | Some ms \<Rightarrow> for_each (on_message clk thread_id) k ms)
       (\<lambda>k1. and_then
          (case tool_calls u of
             None \<Rightarrow> ([], None)
           | Some calls \<Rightarrow> for_each (on_tool_call clk thread_id) k1 calls)
          (\<lambda>k2. on_structured_response clk thread_id k2 (structured_response u))
          k1)
       k"

text \<open>The \<open>try\<close> block: \<open>async for step in agent.astream(...)\<close> with its body, then the
  way the stream itself ends.\<close>

definition try_block ::
  "(nat \<Rightarrow> pyval) \<Rightarrow> int \<Rightarrow> nat \<Rightarrow> update list list \<times> ending \<Rightarrow> action list \<times> py_raise option" where
  "try_block clk thread_id k stream =
     and_then
       (for_each (\<lambda>k1 step. for_each (on_update clk thread_id) k1 step) k (fst stream))
       (\<lambda>k1. ([], case snd stream of Finished \<Rightarrow> None | Raised e \<Rightarrow> Some e))
       k"

definition sse_generator :: "(nat \<Rightarrow> pyval) \<Rightarrow> agent \<Rightarrow> string \<Rightarrow> int \<Rightarrow> action list \<times> outcome" where
  "sse_generator clk agent msg thread_id =
     (let opening =
            [Broadcast (event clk 0 thread_id
               [(''type'', PStr ''start''), (''content'', PStr (''New Request: '' @ msg))]),
             Yield start_frame]
      in
        (case try_block clk thread_id 1 (agent msg thread_id) of
           (body, None) \<Rightarrow> (opening @ body @ [Yield done_frame], Returned)
         | (body, Some (Exception detail)) \<Rightarrow>
             (opening @ body @
                [Yield (error_frame detail),
                 Broadcast (event clk (Suc (broadcasts body)) thread_id
                   [(''type'', PStr ''error''), (''content'', PStr detail)]),
                 Yield done_frame],
              Returned)
         | (body, Some (BaseException detail)) \<Rightarrow>
             (opening @ body, Propagated (BaseException detail))))"

text \<open>What the caller receives and what the bus is given, each in order.\<close>

fun yielded :: "action list \<Rightarrow> frame list" where
  "yielded [] = []"
| "yielded (Yield f # as) = f # yielded as"
| "yielded (Broadcast e # as) = yielded as"

fun published :: "action list \<Rightarrow> pyval list" where
  "published [] = []"
| "published (Yield f # as) = published as"
| "published (Broadcast e # as) = e # published as"


text \<open>The \<open>type\<close> entry of a published event, and the kind of a frame: the \<open>type\<close> entry
  of its JSON object, or its label when the data is a fixed text.\<close>

definition event_type :: "pyval \<Rightarrow> pyval" where
  "event_type e = (case dict_get e ''type'' PNone of Inr t \<Rightarrow> t | Inl x \<Rightarrow> PNone)"

definition frame_type :: "frame \<Rightarrow> pyval" where
  "frame_type f =
     (case frame_data f of
        Json v \<Rightarrow> event_type v
      | Text s \<Rightarrow> (case frame_label f of Some l \<Rightarrow> PStr l | None \<Rightarrow> PNone))"

text \<open>A frame and an event carry the same fields when the event is the frame's JSON
  object with \<open>timestamp\<close> and \<open>thread_id\<close> put in front.\<close>

definition same_fields :: "frame \<Rightarrow> pyval \<Rightarrow> bool" where
  "same_fields f e =
     (case e of
        PDict (t # i # kvs) \<Rightarrow>
          fst t = ''timestamp'' \<and> fst i = ''thread_id'' \<and> frame_data f = Json (PDict kvs)
      | _ \<Rightarrow> False)"

text \<open>A stretch of a run in which every frame yielded is followed at once by the
  broadcast of the same fields, and nothing else happens.\<close>

fun paired :: "action list \<Rightarrow> bool" where
  "paired [] = True"
| "paired (Yield f # Broadcast e # as) = (same_fields f e \<and> paired as)"
| "paired (a # as) = False"

text \<open>Every \<open>AIMessage\<close> of the stream has a \<open>str\<close> (or an empty) content, so that
  \<open>startswith\<close> can be called on it.\<close>

fun str_message :: "message \<Rightarrow> bool" where
  "str_message (AIMessage content) = (\<not> truthy content \<or> (case content of PStr s \<Rightarrow> True | _ \<Rightarrow> False))"
| "str_message m = True"

definition str_contents :: "update list list \<Rightarrow> bool" where
  "str_contents steps =
     list_all (list_all (\<lambda>u. case messages u of None \<Rightarrow> True | Some ms \<Rightarrow> list_all str_message ms)) steps"

text \<open>Publishing a list of events, one call of \<open>broadcast_event\<close> each.\<close>

definition publish_all :: "pyval list \<Rightarrow> bus \<Rightarrow> bus" where
  "publish_all es b = fold broadcast_event es b"

text \<open>The two classes of what can be raised, and what the end of the stream raises.\<close>

definition is_exception :: "py_raise \<Rightarrow> bool" where
  "is_exception e = (case e of Exception d \<Rightarrow> True | BaseException d \<Rightarrow> False)"

definition stream_raise :: "ending \<Rightarrow> py_raise option" where
  "stream_raise ending = (case ending of Finished \<Rightarrow> None | Raised e \<Rightarrow> Some e)"

text \<open>Concrete inputs on which the bus and the generator are run below: a clock, an agent
  that yields no step, one whose stream is cancelled, one that raises after a thought, the
  four-step run of the specification, one that calls a tool with \<open>nan\<close> among the
  arguments, and buses with no, one and two subscribers.\<close>

definition demo_clock :: "nat \<Rightarrow> pyval" where
  "demo_clock k = PFloat (Decimal False (100 + k) [2, 5])"

definition idle_agent :: agent where
  "idle_agent msg thread_id = ([], Finished)"

definition cancelled_agent :: agent where
  "cancelled_agent msg thread_id = ([], Raised (BaseException ''''))"

definition failing_agent :: agent where
  "failing_agent msg thread_id =
     ([[\<lparr>messages = Some [AIMessage (PStr ''x'')], tool_calls = None,
         structured_response = None\<rparr>]],
      Raised (Exception ''boom''))"

definition demo_agent :: agent where
  "demo_agent msg thread_id =
     ([[\<lparr>messages = Some [AIMessage (PStr ''x'')], tool_calls = None,
         structured_response = None\<rparr>],
       [\<lparr>messages = None,
         tool_calls = Some [ToolCall (PStr ''start_vm'') (PDict [(''vmid'', PInt 100)])],
         structured_response = None\<rparr>],
       [\<lparr>messages = Some [ToolMessage (PStr ''start_vm'') (PStr ''ok'') (PStr ''id1'')],
         tool_calls = None, structured_response = None\<rparr>],
       [\<lparr>messages = Some [AIMessage (PStr ''Returning structured response: done'')],
         tool_calls = None, structured_response = Some (PStr ''done'')\<rparr>]],
      Finished)"

definition nan_agent :: agent where
  "nan_agent msg thread_id =
     ([[\<lparr>messages = None,
         tool_calls = Some [ToolCall (PStr ''resize'') (PDict [(''ratio'', PFloat NaN)])],
         structured_response = None\<rparr>]],
      Finished)"

definition bus_empty :: bus where
  "bus_empty = \<lparr>queues = [], contents = (\<lambda>q. []), fresh = 0\<rparr>"

definition one_subscriber :: bus where
  "one_subscriber = snd (monitor_endpoint bus_empty)"

definition two_subscribers :: bus where
  "two_subscribers = snd (monitor_endpoint one_subscriber)"


section \<open>Properties of the task monitor\<close>

lemma inspect_running:
  "still_running r \<Longrightarrow> \<exists>st. inspect rp upid r = Running st \<and> st \<noteq> PStr ''stopped''"
  by (auto simp: still_running_def inspect_def split: sum.splits prod.splits)

lemma task_fields_exn: "task_fields r = Inl e \<Longrightarrow> e = AttributeError"
  by (auto simp: task_fields_def dict_get_def split: sum.splits pyval.splits)

lemma inspect_exn: "inspect rp upid r = Leave (Inl e) \<Longrightarrow> e = AttributeError"
  by (auto simp: inspect_def split: sum.splits prod.splits if_splits dest: task_fields_exn)

lemma clock_at_lower: "2000 * k \<le> clock_at env k"
  by (induction k) auto

lemma status_at_running:
  "still_running (poll_response (env k)) \<Longrightarrow>
   \<exists>st. status_at rp upid env (Suc k) = Some st \<and> inspect rp upid (poll_response (env k)) = Running st"
  using inspect_running [of "poll_response (env k)" rp upid] by auto

text \<open>As long as every round so far found the task running and the clock is inside the
  deadline, the run from the start is the run from round \<open>k\<close>.\<close>

lemma monitor_loop_prefix:
  "(\<forall>i<k. still_running (poll_response (env i))) \<Longrightarrow> int (clock_at env k) < timeout * 1000 \<Longrightarrow>
   monitor_loop rp env upid timeout 0 0 None =
   monitor_loop rp env upid timeout k (clock_at env k) (status_at rp upid env k)"
proof (induction k)
  case 0
  then show ?case by simp
next
  case (Suc k)
  have le: "clock_at env k \<le> clock_at env (Suc k)" by simp
  with Suc.prems have lt: "int (clock_at env k) < timeout * 1000" by linarith
  from Suc.prems have run: "still_running (poll_response (env k))" by simp
  then obtain st where st: "inspect rp upid (poll_response (env k)) = Running st"
    using inspect_running by blast
  have "monitor_loop rp env upid timeout 0 0 None =
        monitor_loop rp env upid timeout k (clock_at env k) (status_at rp upid env k)"
    using Suc by simp
  also have "\<dots> = monitor_loop rp env upid timeout (Suc k) (clock_at env (Suc k)) (Some st)"
    using lt st Suc.prems(2) by (subst monitor_loop.simps) simp
  finally show ?case using st by simp
qed

lemma monitor_loop_bound:
  "status = Some s \<Longrightarrow>
   fst (monitor_loop rp env upid timeout n elapsed status) \<noteq> Inl UnboundLocalError"
proof (induction rp env upid timeout n elapsed status arbitrary: s rule: monitor_loop.induct)
  case (1 rp env upid timeout n elapsed status)
  show ?case
    apply (subst monitor_loop.simps)
    using 1 by (auto split: verdict.splits dest: inspect_exn)
qed

lemma monitor_loop_count:
  "n \<le> snd (monitor_loop rp env upid timeout n elapsed status)"
proof (induction rp env upid timeout n elapsed status rule: monitor_loop.induct)
  case (1 rp env upid timeout n elapsed status)
  show ?case
    apply (subst monitor_loop.simps)
    using 1 by (auto split: verdict.splits option.splits dest: Suc_leD)
qed

text \<open>On a task that never stops and a status endpoint that never fails, the loop ends in
  the timeout message, carrying the status read in the last round it ran, and that round
  began inside the deadline.\<close>

lemma monitor_loop_deadline:
  assumes run: "\<forall>i. still_running (poll_response (env i))"
  shows "0 < n \<or> int (clock_at env n) < timeout * 1000 \<Longrightarrow>
         (0 < n \<longrightarrow> int (clock_at env (n - 1)) < timeout * 1000) \<Longrightarrow>
         \<exists>k st. monitor_loop rp env upid timeout n (clock_at env n) (status_at rp upid env n)
                  = (Inr (timeout_msg rp upid timeout st), k)
              \<and> 0 < k \<and> inspect rp upid (poll_response (env (k - 1))) = Running st
              \<and> int (clock_at env (k - 1)) < timeout * 1000"
proof (induction "nat (timeout * 1000 - int (clock_at env n))" arbitrary: n rule: less_induct)
  case less
  show ?case
  proof (cases "int (clock_at env n) < timeout * 1000")
    case False
    with less.prems obtain m where m: "n = Suc m" by (cases n) auto
    obtain st where st: "status_at rp upid env (Suc m) = Some st"
        "inspect rp upid (poll_response (env m)) = Running st"
      using status_at_running run by blast
    have "monitor_loop rp env upid timeout n (clock_at env n) (status_at rp upid env n)
          = (Inr (timeout_msg rp upid timeout st), n)"
      using False st m by (subst monitor_loop.simps) simp
    with st m less.prems show ?thesis by auto
  next
    case lt: True
    obtain st where st: "status_at rp upid env (Suc n) = Some st"
        "inspect rp upid (poll_response (env n)) = Running st"
      using status_at_running run by blast
    show ?thesis
    proof (cases "int (clock_at env (Suc n)) > timeout * 1000")
      case True
      have "monitor_loop rp env upid timeout n (clock_at env n) (status_at rp upid env n)
          = (Inr (timeout_msg rp upid timeout st), Suc n)"
        using lt True st by (subst monitor_loop.simps) simp
      with st lt show ?thesis by auto
    next
      case False
      have step: "monitor_loop rp env upid timeout n (clock_at env n) (status_at rp upid env n)
          = monitor_loop rp env upid timeout (Suc n) (clock_at env (Suc n))
              (status_at rp upid env (Suc n))"
        using lt False st by (subst monitor_loop.simps) simp
      have "nat (timeout * 1000 - int (clock_at env (Suc n)))
              < nat (timeout * 1000 - int (clock_at env n))"
        using lt by simp
      from less.hyps [OF this] lt show ?thesis
        unfolding step by simp
    qed
  qed
qed

text \<open>Dropping the second deadline test changes nothing: when it fires, the loop condition
  fails at the same clock value and the return after the loop prints the same string.\<close>

lemma monitor_loop_collapsed_eq:
  "monitor_loop_collapsed rp env upid timeout n elapsed status =
   monitor_loop rp env upid timeout n elapsed status"
proof (induction rp env upid timeout n elapsed status rule: monitor_loop.induct)
  case (1 rp env upid timeout n elapsed status)
  show ?case
  proof (cases "int elapsed < timeout * 1000")
    case False
    then show ?thesis by (subst monitor_loop.simps, subst monitor_loop_collapsed.simps) simp
  next
    case lt: True
    show ?thesis
    proof (cases "inspect rp upid (poll_response (env n))")
      case (Leave r)
      with lt show ?thesis by (subst monitor_loop.simps, subst monitor_loop_collapsed.simps) simp
    next
      case (Running st)
      show ?thesis
      proof (cases "int (elapsed + 2000 + poll_latency (env n)) > timeout * 1000")
        case True
        then have "monitor_loop_collapsed rp env upid timeout (Suc n)
                     (elapsed + 2000 + poll_latency (env n)) (Some st)
                   = (Inr (timeout_msg rp upid timeout st), Suc n)"
          by (subst monitor_loop_collapsed.simps) simp
        with lt Running True show ?thesis
          by (subst monitor_loop.simps, subst monitor_loop_collapsed.simps) simp
      next
        case False
        with lt Running 1 show ?thesis
          by (subst monitor_loop.simps, subst monitor_loop_collapsed.simps) simp
      qed
    qed
  qed
qed

text \<open>
  \<^bold>\<open>C2.\<close> Take an authenticated client and a run in which rounds \<open>0 .. k-1\<close> found the task
  still running and round \<open>k\<close> starts inside the deadline. Let the answer of round \<open>k\<close> be
  a dict without the key \<open>error\<close> whose \<open>data\<close> is a dict with \<open>status\<close> equal to
  \<open>'stopped'\<close>. If the \<open>exitstatus\<close> entry of that dict is \<open>'OK'\<close> the function returns the
  string \<open>SUCCESS: Task <upid> completed successfully. Exit status: OK\<close>; for any other
  entry it returns the \<open>FAILURE\<close> string carrying that entry as it was received, and
  \<open>N/A\<close> when the entry is absent. In every case exactly \<open>k + 1\<close> status requests were
  sent. For the answers running, running, stopped with exit status OK (\<open>k = 2\<close>) this is
  \<open>SUCCESS\<close> after exactly three requests, provided the third round starts inside the
  deadline: the timeout is more than four seconds plus the latency of the first two
  rounds.
\<close>

theorem stopped_outcome:
  assumes auth: "is_authenticated c"
    and before: "\<forall>i<k. still_running (poll_response (remote (task_path node upid) i))"
    and in_time: "int (clock_at (remote (task_path node upid)) k) < timeout * 1000"
    and answer: "poll_response (remote (task_path node upid) k) = PDict kvs"
    and no_error: "map_of kvs ''error'' = None"
    and data: "map_of kvs ''data'' = Some (PDict task)"
    and stopped: "map_of task ''status'' = Some (PStr ''stopped'')"
  shows "monitor_pve_task rp (Some c) remote node upid timeout =
           (case map_of task ''exitstatus'' of
              Some exitstatus \<Rightarrow>
                if exitstatus = PStr ''OK''
                then Inr (''SUCCESS: Task '' @ upid @ '' completed successfully. Exit status: OK'')
                else Inr (''FAILURE: Task '' @ upid @ '' finished with error. Exit status: ''
                           @ py_format rp exitstatus @ ''. Check PVE task log for details.'')
            | None \<Rightarrow>
                Inr (''FAILURE: Task '' @ upid @ '' finished with error. Exit status: N/A''
                      @ ''. Check PVE task log for details.''),
            Suc k)"
proof -
  let ?env = "remote (task_path node upid)"
  let ?ex = "case map_of task ''exitstatus'' of None \<Rightarrow> PStr ''N/A'' | Some v \<Rightarrow> v"
  have nf: "\<not> fetch_failed (poll_response (?env k))"
    using answer no_error by (simp add: fetch_failed_def dict_has_def)
  have tf: "task_fields (poll_response (?env k)) = Inr (PStr ''stopped'', ?ex)"
    using answer data stopped by (simp add: task_fields_def dict_get_def)
  have "monitor_pve_task rp (Some c) remote node upid timeout =
        monitor_loop rp ?env upid timeout 0 0 None"
    using auth by (simp add: monitor_pve_task_def)
  also have "\<dots> = monitor_loop rp ?env upid timeout k (clock_at ?env k) (status_at rp upid ?env k)"
    using before in_time by (rule monitor_loop_prefix)
  also have "\<dots> = (if ?ex = PStr ''OK'' then Inr (success_msg rp upid ?ex)
                     else Inr (failure_msg rp upid ?ex), Suc k)"
    using in_time nf tf by (subst monitor_loop.simps) (simp add: inspect_def)
  finally show ?thesis
    by (simp add: success_msg_def failure_msg_def py_format_def split: option.split)
qed

theorem stopped_outcome_witness:
  "is_authenticated client_ok
   \<and> still_running (poll_response (remote_stops_third (task_path ''pve'' ''UPID:1'') 0))
   \<and> still_running (poll_response (remote_stops_third (task_path ''pve'' ''UPID:1'') 1))
   \<and> int (clock_at (remote_stops_third (task_path ''pve'' ''UPID:1'')) 2) < 300 * 1000
   \<and> poll_response (remote_stops_third (task_path ''pve'' ''UPID:1'') 2)
       = PDict [(''data'', PDict [(''status'', PStr ''stopped''), (''exitstatus'', PStr ''OK'')])]
   \<and> monitor_pve_task demo_repr (Some client_ok) remote_stops_third ''pve'' ''UPID:1'' 300
       = (Inr ''SUCCESS: Task UPID:1 completed successfully. Exit status: OK'', 3)
   \<and> poll_response (remote_fails_third (task_path ''pve'' ''UPID:1'') 2)
       = PDict [(''data'', PDict [(''status'', PStr ''stopped''),
                                  (''exitstatus'', PStr ''start failed'')])]
   \<and> monitor_pve_task demo_repr (Some client_ok) remote_fails_third ''pve'' ''UPID:1'' 300
       = (Inr (''FAILURE: Task UPID:1 finished with error. Exit status: start failed''
                @ ''. Check PVE task log for details.''), 3)"
  using stopped_outcome [of client_ok 2 remote_stops_third "''pve''" "''UPID:1''" 300
      "[(''data'', PDict [(''status'', PStr ''stopped''), (''exitstatus'', PStr ''OK'')])]"
      "[(''status'', PStr ''stopped''), (''exitstatus'', PStr ''OK'')]" demo_repr]
    stopped_outcome [of client_ok 2 remote_fails_third "''pve''" "''UPID:1''" 300
      "[(''data'', PDict [(''status'', PStr ''stopped''), (''exitstatus'', PStr ''start failed'')])]"
      "[(''status'', PStr ''stopped''), (''exitstatus'', PStr ''start failed'')]" demo_repr]
  by (simp add: client_ok_def remote_stops_third_def remote_fails_third_def task_response_def
      still_running_def fetch_failed_def dict_has_def task_fields_def dict_get_def
      py_format_def numeral_2_eq_2)

lemma str_int_4: "str_int 4 = ''4''"
  by code_simp

theorem deadline_before_third_request:
  "monitor_pve_task demo_repr (Some client_ok) remote_stops_third ''pve'' ''UPID:1'' 4
     = (Inr ''ERROR: Task UPID:1 timed out after 4 seconds. Current status: running'', 2)"
  by (simp add: monitor_pve_task_def client_ok_def monitor_loop.simps inspect_def
      remote_stops_third_def task_response_def fetch_failed_def dict_has_def task_fields_def
      dict_get_def timeout_msg_def py_format_def str_int_4)

text \<open>
  \<^bold>\<open>C3.\<close> Take an authenticated client, a positive timeout, and a status endpoint that
  never fails and never reports \<open>'stopped'\<close>. Then the function returns the timeout string
  \<open>ERROR: Task <upid> timed out after <timeout> seconds. Current status: <status>\<close>, where
  \<open>status\<close> is the status field read in the last request it sent. The number \<open>k\<close> of
  requests is at least one and satisfies \<open>2 (k - 1) < timeout\<close>, the rounds being two
  seconds apart at least; for a timeout of 5 this is at most three requests.
\<close>

theorem timeout_outcome:
  assumes auth: "is_authenticated c"
    and pos: "0 < timeout"
    and run: "\<forall>i. still_running (poll_response (remote (task_path node upid) i))"
  shows "\<exists>k st exitstatus.
           monitor_pve_task rp (Some c) remote node upid timeout =
             (Inr (''ERROR: Task '' @ upid @ '' timed out after '' @ str_int timeout
                   @ '' seconds. Current status: '' @ py_format rp st), k)
         \<and> 0 < k
         \<and> task_fields (poll_response (remote (task_path node upid) (k - 1))) = Inr (st, exitstatus)
         \<and> st \<noteq> PStr ''stopped''
         \<and> 2 * (int k - 1) < timeout
         \<and> (timeout = 5 \<longrightarrow> k \<le> 3)"
proof -
  let ?env = "remote (task_path node upid)"
  have start: "monitor_pve_task rp (Some c) remote node upid timeout =
        monitor_loop rp ?env upid timeout 0 (clock_at ?env 0) (status_at rp upid ?env 0)"
    using auth by (simp add: monitor_pve_task_def)
  from monitor_loop_deadline [OF run, of 0 timeout rp upid] pos
  obtain k st where k:
     "monitor_loop rp ?env upid timeout 0 (clock_at ?env 0) (status_at rp upid ?env 0)
        = (Inr (timeout_msg rp upid timeout st), k)"
     "0 < k" "inspect rp upid (poll_response (?env (k - 1))) = Running st"
     "int (clock_at ?env (k - 1)) < timeout * 1000"
    by auto
  from k(3) obtain ex where ex: "task_fields (poll_response (?env (k - 1))) = Inr (st, ex)"
      "st \<noteq> PStr ''stopped''"
    by (auto simp: inspect_def split: if_splits sum.splits prod.splits)
  from k(2) obtain m where m: "k = Suc m" by (cases k) auto
  have "2000 * m \<le> clock_at ?env m" by (rule clock_at_lower)
  then have "2000 * int m \<le> int (clock_at ?env m)" by linarith
  with k(4) m have bound: "2 * (int k - 1) < timeout" by simp
  then have "timeout = 5 \<longrightarrow> k \<le> 3" by auto
  with start k ex bound show ?thesis
    by (auto simp: timeout_msg_def)
qed

lemma str_int_5: "str_int 5 = ''5''"
  by code_simp

theorem timeout_outcome_witness:
  "is_authenticated client_ok \<and> (0::int) < 5
   \<and> (\<forall>i. still_running (poll_response (remote_never_stops (task_path ''pve'' ''UPID:1'') i)))
   \<and> (\<exists>k. monitor_pve_task (\<lambda>v. ''?'') (Some client_ok) remote_never_stops ''pve'' ''UPID:1'' 5
              = (Inr ''ERROR: Task UPID:1 timed out after 5 seconds. Current status: running'', k)
            \<and> 0 < k \<and> k \<le> 3)"
  using timeout_outcome [of client_ok 5 remote_never_stops "''pve''" "''UPID:1''" "\<lambda>v. ''?''"]
  by (auto simp add: client_ok_def remote_never_stops_def task_response_def still_running_def
      fetch_failed_def dict_has_def task_fields_def dict_get_def str_int_5 py_format_def)

text \<open>
  \<^bold>\<open>C7.\<close> Take an authenticated client and a run in which rounds \<open>0 .. k-1\<close> found the task
  still running and round \<open>k\<close> starts inside the deadline. If the status request of round
  \<open>k\<close> fails (\<open>api_request\<close> returns \<open>None\<close> or a dict with the key \<open>error\<close>), the function
  returns at once the string \<open>ERROR: Failed to fetch task status for <upid>. Details:
  <response>\<close>, and the failing request is the last one it sent: \<open>k + 1\<close> requests in all,
  none of them a retry.
\<close>

theorem fetch_failure_outcome:
  assumes auth: "is_authenticated c"
    and before: "\<forall>i<k. still_running (poll_response (remote (task_path node upid) i))"
    and in_time: "int (clock_at (remote (task_path node upid)) k) < timeout * 1000"
    and failed: "fetch_failed (poll_response (remote (task_path node upid) k))"
  shows "monitor_pve_task rp (Some c) remote node upid timeout =
           (Inr (''ERROR: Failed to fetch task status for '' @ upid @ ''. Details: ''
                  @ py_format rp (poll_response (remote (task_path node upid) k))),
            Suc k)"
proof -
  let ?env = "remote (task_path node upid)"
  have "monitor_pve_task rp (Some c) remote node upid timeout =
        monitor_loop rp ?env upid timeout 0 0 None"
    using auth by (simp add: monitor_pve_task_def)
  also have "\<dots> = monitor_loop rp ?env upid timeout k (clock_at ?env k) (status_at rp upid ?env k)"
    using before in_time by (rule monitor_loop_prefix)
  also have "\<dots> = (Inr (fetch_error_msg rp upid (poll_response (?env k))), Suc k)"
    using in_time failed by (subst monitor_loop.simps) (simp add: inspect_def)
  finally show ?thesis
    by (simp add: fetch_error_msg_def)
qed

theorem fetch_failure_outcome_witness:
  "is_authenticated client_ok
   \<and> still_running (poll_response (remote_fails_second (task_path ''pve'' ''UPID:1'') 0))
   \<and> int (clock_at (remote_fails_second (task_path ''pve'' ''UPID:1'')) 1) < 300 * 1000
   \<and> fetch_failed (poll_response (remote_fails_second (task_path ''pve'' ''UPID:1'') 1))
   \<and> monitor_pve_task (\<lambda>v. ''{...}'') (Some client_ok) remote_fails_second ''pve'' ''UPID:1'' 300
       = (Inr ''ERROR: Failed to fetch task status for UPID:1. Details: {...}'', 2)"
  using fetch_failure_outcome [of client_ok 1 remote_fails_second "''pve''" "''UPID:1''" 300
      "\<lambda>v. ''{...}''"]
  by (simp add: client_ok_def remote_fails_second_def task_response_def still_running_def
      fetch_failed_def dict_has_def task_fields_def dict_get_def py_format_def numeral_2_eq_2)

text \<open>
  \<^bold>\<open>C8.\<close> The monitor with the deadline tested only in the loop condition returns, for every
  client, remote side, node, task id and timeout, the same result as the source's monitor
  with its second test after the status query, and sends the same number of requests.
\<close>

theorem collapsed_deadline_equivalent:
  "monitor_pve_task_collapsed rp pve_client remote node upid timeout =
   monitor_pve_task rp pve_client remote node upid timeout"
  by (simp add: monitor_pve_task_collapsed_def monitor_pve_task_def monitor_loop_collapsed_eq
      split: option.split)

theorem collapsed_deadline_equivalent_witness:
  "monitor_pve_task_collapsed (\<lambda>v. ''?'') (Some client_ok) remote_never_stops ''pve'' ''UPID:1'' 5
     = (Inr ''ERROR: Task UPID:1 timed out after 5 seconds. Current status: running'', 3)"
  unfolding collapsed_deadline_equivalent
  by (simp add: monitor_pve_task_def client_ok_def monitor_loop.simps inspect_def
      remote_never_stops_def task_response_def fetch_failed_def dict_has_def task_fields_def
      dict_get_def timeout_msg_def py_format_def str_int_5)

text \<open>
  \<^bold>\<open>C10.\<close> With an authenticated client and a timeout above zero, the function sends at
  least one status request before it returns, and it never raises \<open>UnboundLocalError\<close>:
  \<open>status\<close> is bound when the return after the loop reads it. With a timeout of zero or
  less the loop body never runs, no request is sent, and the return after the loop raises
  \<open>UnboundLocalError\<close>.
\<close>

theorem status_bound_iff_positive_timeout:
  assumes auth: "is_authenticated c"
  shows "(0 < timeout \<longrightarrow>
            1 \<le> snd (monitor_pve_task rp (Some c) remote node upid timeout)
          \<and> fst (monitor_pve_task rp (Some c) remote node upid timeout) \<noteq> Inl UnboundLocalError)
       \<and> (timeout \<le> 0 \<longrightarrow>
            monitor_pve_task rp (Some c) remote node upid timeout = (Inl UnboundLocalError, 0))"
proof (intro conjI impI)
  let ?env = "remote (task_path node upid)"
  have start: "monitor_pve_task rp (Some c) remote node upid timeout =
        monitor_loop rp ?env upid timeout 0 0 None"
    using auth by (simp add: monitor_pve_task_def)
  {
    assume "timeout \<le> 0"
    then show "monitor_pve_task rp (Some c) remote node upid timeout = (Inl UnboundLocalError, 0)"
      unfolding start by (subst monitor_loop.simps) simp
  }
  assume pos: "0 < timeout"
  show "1 \<le> snd (monitor_pve_task rp (Some c) remote node upid timeout)"
    unfolding start using pos
    monitor_loop_count [of "Suc 0" rp ?env upid timeout]
    by (subst monitor_loop.simps) (auto split: verdict.splits dest: Suc_leD)
  show "fst (monitor_pve_task rp (Some c) remote node upid timeout) \<noteq> Inl UnboundLocalError"
    unfolding start using pos
    by (subst monitor_loop.simps)
      (auto split: verdict.splits dest: inspect_exn simp: monitor_loop_bound)
qed

theorem status_bound_iff_positive_timeout_witness:
  "is_authenticated client_ok
   \<and> (0::int) < 300
   \<and> 1 \<le> snd (monitor_pve_task (\<lambda>v. ''?'') (Some client_ok) remote_never_stops ''pve'' ''UPID:1'' 300)
   \<and> fst (monitor_pve_task (\<lambda>v. ''?'') (Some client_ok) remote_never_stops ''pve'' ''UPID:1'' 300)
        \<noteq> Inl UnboundLocalError
   \<and> (0::int) \<le> 0
   \<and> monitor_pve_task (\<lambda>v. ''?'') (Some client_ok) remote_never_stops ''pve'' ''UPID:1'' 0
        = (Inl UnboundLocalError, 0)"
  using status_bound_iff_positive_timeout [of client_ok 300 "\<lambda>v. ''?''" remote_never_stops
      "''pve''" "''UPID:1''"]
    status_bound_iff_positive_timeout [of client_ok 0 "\<lambda>v. ''?''" remote_never_stops
      "''pve''" "''UPID:1''"]
  by (simp add: client_ok_def)


section \<open>Properties of the JSON text\<close>

lemma is_hex_hex_char: "d < 16 \<Longrightarrow> is_hex (hex_char d)"
  by (auto simp: is_hex_def hex_char_def is_digit_def)

lemma p_chars_esc: "p_chars (esc_char c @ cs) = p_chars cs"
proof -
  have h: "(of_char c :: nat) < 0x20 \<Longrightarrow> is_hex (hex_char ((of_char c :: nat) div 16))"
    by (rule is_hex_hex_char) simp
  have h2: "is_hex (hex_char ((of_char c :: nat) mod 16))"
    by (rule is_hex_hex_char) simp
  have z: "is_hex CHR ''0''" by (simp add: is_hex_def is_digit_def)
  show ?thesis
    using h h2 z by (simp add: esc_char_def)
qed

lemma p_chars_body: "p_chars (concat (map esc_char s) @ CHR 0x22 # rest) = Some rest"
  by (induction s) (simp_all add: p_chars_esc)

lemma p_chars_dumps_str: "p_chars (tl (dumps_str s) @ rest) = Some rest"
  by (simp add: dumps_str_def p_chars_body)


lemma is_digit_digit_char: "d < 10 \<Longrightarrow> is_digit (digit_char d)"
  by (simp add: is_digit_def digit_char_def)

lemma digit_char_zero: "d < 10 \<Longrightarrow> digit_char d = CHR ''0'' \<longleftrightarrow> d = 0"
proof -
  assume d: "d < 10"
  have "digit_char d = CHR ''0'' \<longleftrightarrow> (of_char (digit_char d) :: nat) = of_char CHR ''0''"
    by (simp only: of_char_eq_iff)
  also have "\<dots> \<longleftrightarrow> d = 0"
    using d by (simp add: digit_char_def)
  finally show ?thesis .
qed

lemma digits_small: "n < 10 \<Longrightarrow> digits n = [digit_char n]"
  by (subst digits.simps) (simp only: if_True)

lemma digits_large: "\<not> n < 10 \<Longrightarrow> digits n = digits (n div 10) @ [digit_char (n mod 10)]"
  by (subst digits.simps) (simp only: if_False)

lemma digits_nonempty: "digits n \<noteq> []"
  by (cases "n < 10") (simp_all add: digits_small digits_large)

lemma is_digit_zero: "is_digit CHR ''0''"
  by (simp add: is_digit_def)

lemma digits_shape:
  "\<exists>d ds. digits n = d # ds \<and> is_digit d \<and> (\<forall>c \<in> set ds. is_digit c) \<and> (d = CHR ''0'' \<longrightarrow> ds = [])"
proof (induction n rule: digits.induct)
  case (1 n)
  show ?case
  proof (cases "n < 10")
    case True
    then show ?thesis by (simp add: digits_small is_digit_digit_char)
  next
    case False
    with 1 obtain d ds where IH: "digits (n div 10) = d # ds" "is_digit d" "\<forall>c \<in> set ds. is_digit c"
      "d = CHR ''0'' \<longrightarrow> ds = []"
      by blast
    have nz: "d \<noteq> CHR ''0''"
    proof
      assume "d = CHR ''0''"
      with IH have e: "digits (n div 10) = [CHR ''0'']" by simp
      have "n div 10 \<noteq> 0" using False by simp
      show False
      proof (cases "n div 10 < 10")
        case True
        with e have "digit_char (n div 10) = CHR ''0''" by (simp add: digits_small)
        with True have "n div 10 = 0" by (simp add: digit_char_zero)
        with \<open>n div 10 \<noteq> 0\<close> show False by simp
      next
        case False
        with e have "digits (n div 10 div 10) @ [digit_char (n div 10 mod 10)] = [CHR ''0'']"
          by (simp add: digits_large)
        then have "digits (n div 10 div 10) = []" by simp
        with digits_nonempty show False by blast
      qed
    qed
    have eq: "digits n = d # (ds @ [digit_char (n mod 10)])"
      using False IH(1) by (simp add: digits_large)
    have last: "is_digit (digit_char (n mod 10))"
      by (rule is_digit_digit_char) simp
    have "is_digit d \<and> (\<forall>c \<in> set (ds @ [digit_char (n mod 10)]). is_digit c)
          \<and> (d = CHR ''0'' \<longrightarrow> ds @ [digit_char (n mod 10)] = [])"
      using IH(2,3) nz last by simp
    with eq show ?thesis by blast
  qed
qed

lemma p_exp_rest: "ok_rest rest \<Longrightarrow> p_exp rest = Some rest"
  by (auto simp: ok_rest_def p_exp_def split: list.splits)

lemma p_frac_rest:
  assumes "ok_rest rest"
  shows "p_frac rest = Some rest"
proof (cases rest)
  case Nil
  then show ?thesis by (simp add: p_frac_def)
next
  case (Cons c cs)
  with assms have "c \<noteq> CHR ''.''" by (auto simp: ok_rest_def)
  with Cons p_exp_rest [OF assms] show ?thesis by (simp add: p_frac_def)
qed

lemma not_digit_rest: "ok_rest rest \<Longrightarrow> dropWhile is_digit rest = rest"
  by (auto simp: ok_rest_def is_digit_def split: list.splits)

lemma dropWhile_digits: "\<forall>c \<in> set ds. is_digit c \<Longrightarrow> dropWhile is_digit (ds @ r) = dropWhile is_digit r"
  by (induction ds) auto

lemma not_digit_misc: "\<not> is_digit CHR ''.''" "\<not> is_digit CHR ''-''"
  by (simp_all add: is_digit_def)

lemma p_number_digits:
  assumes "p_frac r = Some rest" "dropWhile is_digit r = r"
  shows "p_number (digits n @ r) = Some rest"
proof -
  obtain d ds where d: "digits n = d # ds" "is_digit d" "\<forall>c \<in> set ds. is_digit c"
      "d = CHR ''0'' \<longrightarrow> ds = []"
    using digits_shape by blast
  have "d \<noteq> CHR ''-''" using d(2) not_digit_misc by auto
  then show ?thesis
    using d assms by (auto simp: p_number_def dropWhile_digits)
qed

lemma p_number_neg_digits:
  assumes "p_frac r = Some rest" "dropWhile is_digit r = r"
  shows "p_number (CHR ''-'' # digits n @ r) = Some rest"
proof -
  obtain d ds where d: "digits n = d # ds" "is_digit d" "\<forall>c \<in> set ds. is_digit c"
      "d = CHR ''0'' \<longrightarrow> ds = []"
    using digits_shape by blast
  then show ?thesis
    using assms by (auto simp: p_number_def dropWhile_digits)
qed

lemma p_number_str_int: "ok_rest rest \<Longrightarrow> p_number (str_int i @ rest) = Some rest"
  by (simp add: str_int_def p_number_digits p_number_neg_digits p_frac_rest not_digit_rest)

lemma p_frac_point:
  assumes "ok_rest rest" "fs \<noteq> []" "\<forall>c \<in> set fs. is_digit c"
  shows "p_frac (CHR ''.'' # fs @ rest) = Some rest"
proof -
  from assms obtain f fs' where f: "fs = f # fs'" by (cases fs) auto
  with assms show ?thesis
    by (simp add: p_frac_def dropWhile_digits not_digit_rest p_exp_rest)
qed

lemma p_number_decimal:
  "ok_rest rest \<Longrightarrow> p_number (repr_decimal neg whole frac @ rest) = Some rest"
proof -
  assume r: "ok_rest rest"
  define fs where "fs = (if frac = [] then ''0'' else map (\<lambda>d. digit_char (d mod 10)) frac)"
  have fs: "fs \<noteq> []" "\<forall>c \<in> set fs. is_digit c"
    by (auto simp: fs_def is_digit_digit_char is_digit_zero)
  have pf: "p_frac (CHR ''.'' # fs @ rest) = Some rest"
    using r fs by (rule p_frac_point)
  have dw: "dropWhile is_digit (CHR ''.'' # fs @ rest) = CHR ''.'' # fs @ rest"
    by (simp add: not_digit_misc)
  have eq: "repr_decimal neg whole frac @ rest =
        (if neg then CHR ''-'' # digits whole @ CHR ''.'' # fs @ rest
         else digits whole @ CHR ''.'' # fs @ rest)"
    by (simp add: repr_decimal_def fs_def)
  show ?thesis
    unfolding eq
    using p_number_digits [OF pf dw, of whole] p_number_neg_digits [OF pf dw, of whole]
    by (cases neg) simp_all
qed

lemma not_digit_e: "\<not> is_digit CHR ''e''"
  by (simp add: is_digit_def)

lemma p_exp_tail:
  assumes "ok_rest rest" "ds \<noteq> []" "\<forall>c \<in> set ds. is_digit c" "s = CHR ''+'' \<or> s = CHR ''-''"
  shows "p_exp (CHR ''e'' # s # ds @ rest) = Some rest"
proof -
  from assms obtain d ds' where "ds = d # ds'" by (cases ds) auto
  with assms show ?thesis
    by (auto simp: p_exp_def dropWhile_digits not_digit_rest)
qed

lemma exponent_digits:
  "(if e < 10 then ''0'' else '''') @ digits e \<noteq> []"
  "\<forall>c \<in> set ((if e < 10 then ''0'' else '''') @ digits e). is_digit c"
  using digits_shape [of e] by (auto simp: is_digit_zero)

lemma p_frac_point_exp:
  assumes "fs \<noteq> []" "\<forall>c \<in> set fs. is_digit c" "p_exp (CHR ''e'' # r) = Some rest"
  shows "p_frac (CHR ''.'' # fs @ CHR ''e'' # r) = Some rest"
proof -
  from assms obtain f fs' where f: "fs = f # fs'" by (cases fs) auto
  have "dropWhile is_digit (fs' @ CHR ''e'' # r) = CHR ''e'' # r"
    using assms(2) f by (simp add: dropWhile_digits not_digit_e)
  with f assms show ?thesis
    by (simp add: p_frac_def)
qed

lemma p_number_scientific:
  "ok_rest rest \<Longrightarrow> p_number (repr_scientific neg whole frac eneg e @ rest) = Some rest"
proof -
  assume r: "ok_rest rest"
  define ds where "ds = (if e < 10 then ''0'' else '''') @ digits e"
  define s where "s = (if eneg then CHR ''-'' else CHR ''+'')"
  define fs where "fs = map (\<lambda>d. digit_char (d mod 10)) frac"
  define tail where "tail = (if frac = [] then [] else CHR ''.'' # fs) @ CHR ''e'' # s # ds @ rest"
  have ds: "ds \<noteq> []" "\<forall>c \<in> set ds. is_digit c"
    unfolding ds_def by (rule exponent_digits)+
  have s: "s = CHR ''+'' \<or> s = CHR ''-''"
    by (simp add: s_def)
  have pe: "p_exp (CHR ''e'' # s # ds @ rest) = Some rest"
    using r ds s by (rule p_exp_tail)
  have fs: "\<forall>c \<in> set fs. is_digit c"
    by (auto simp: fs_def is_digit_digit_char)
  have pf: "p_frac tail = Some rest"
  proof (cases "frac = []")
    case True
    then show ?thesis using pe by (simp add: tail_def p_frac_def)
  next
    case False
    then have "fs \<noteq> []" by (simp add: fs_def)
    from p_frac_point_exp [OF this fs pe] False show ?thesis by (simp add: tail_def)
  qed
  have dw: "dropWhile is_digit tail = tail"
    by (simp add: tail_def not_digit_misc not_digit_e)
  have eq: "repr_scientific neg whole frac eneg e @ rest =
        (if neg then CHR ''-'' # digits whole @ tail else digits whole @ tail)"
    by (simp add: repr_scientific_def tail_def fs_def ds_def s_def)
  show ?thesis
    unfolding eq
    using p_number_digits [OF pf dw, of whole] p_number_neg_digits [OF pf dw, of whole]
    by (cases neg) simp_all
qed

lemma p_number_float:
  "isfinite x \<Longrightarrow> ok_rest rest \<Longrightarrow> p_number (dumps_float x @ rest) = Some rest"
  by (cases x) (simp_all add: p_number_decimal p_number_scientific)

lemma opens_value_digit: "is_digit c \<Longrightarrow> opens_value c"
  by (auto simp: opens_value_def is_digit_def is_ws_def)

lemma digits_opens: "\<exists>c cs. digits n @ r = c # cs \<and> opens_value c"
  using digits_shape [of n] by (auto simp: opens_value_digit)

lemma dumps_opens: "\<exists>c cs. dumps v = c # cs \<and> opens_value c"
proof (cases v)
  case (PInt i)
  then show ?thesis
    using digits_opens [of "nat i" "[]"] digits_opens [of "nat (- i)" "[]"]
    by (auto simp: str_int_def opens_value_def is_ws_def)
next
  case (PFloat x)
  have "\<exists>c cs. dumps_float x = c # cs \<and> opens_value c"
  proof (cases x)
    case (Decimal neg whole frac)
    then show ?thesis
      using digits_opens [of whole
          "''.'' @ (if frac = [] then ''0'' else map (\<lambda>d. digit_char (d mod 10)) frac)"]
      by (auto simp: repr_decimal_def opens_value_def is_ws_def)
  next
    case (Scientific neg whole frac eneg e)
    then show ?thesis
      using digits_opens [of whole
          "(if frac = [] then '''' else ''.'' @ map (\<lambda>d. digit_char (d mod 10)) frac) @
           ''e'' @ (if eneg then ''-'' else ''+'') @ (if e < 10 then ''0'' else '''') @ digits e"]
      by (auto simp: repr_scientific_def opens_value_def is_ws_def)
  qed (auto simp: opens_value_def is_ws_def)
  with PFloat show ?thesis by simp
qed (auto simp: opens_value_def is_ws_def dumps_str_def)

lemma skip_ws_opens: "opens_value c \<Longrightarrow> skip_ws (c # cs) = c # cs"
  by (simp add: skip_ws_def opens_value_def)

lemma skip_ws_space: "skip_ws (CHR '' '' # cs) = skip_ws cs"
  by (simp add: skip_ws_def is_ws_def)

lemma skip_ws_punct:
  "skip_ws (CHR '','' # cs) = CHR '','' # cs"
  "skip_ws (CHR '']'' # cs) = CHR '']'' # cs"
  "skip_ws (CHR ''}'' # cs) = CHR ''}'' # cs"
  "skip_ws (CHR '':'' # cs) = CHR '':'' # cs"
  by (simp_all add: skip_ws_def is_ws_def)

lemma ok_rest_punct: "ok_rest (CHR '','' # cs)" "ok_rest (CHR '']'' # cs)" "ok_rest (CHR ''}'' # cs)" "ok_rest []"
  by (simp_all add: ok_rest_def)

lemma dumps_length: "0 < length (dumps v)"
  using dumps_opens [of v] by auto

lemma p_value_num:
  assumes "is_digit c \<or> c = CHR ''-''"
  shows "p_value (Suc n) (c # r) = p_number (c # r)"
proof -
  have "(of_char c :: nat) \<le> 57" using assms by (auto simp: is_digit_def)
  then have "c \<noteq> CHR 0x22 \<and> c \<noteq> CHR ''['' \<and> c \<noteq> CHR ''{'' \<and> c \<noteq> CHR ''n''
      \<and> c \<noteq> CHR ''t'' \<and> c \<noteq> CHR ''f''"
    using assms by (auto simp: is_digit_def)
  then show ?thesis by simp
qed

lemma digits_lead: "\<exists>c cs. digits n @ r = c # cs \<and> is_digit c"
  using digits_shape [of n] by auto

lemma p_value_int: "ok_rest rest \<Longrightarrow> p_value (Suc n) (str_int i @ rest) = Some rest"
proof -
  assume r: "ok_rest rest"
  have "\<exists>c cs. str_int i @ rest = c # cs \<and> (is_digit c \<or> c = CHR ''-'')"
  proof (cases "i < 0")
    case True
    then show ?thesis by (simp add: str_int_def)
  next
    case False
    with digits_lead [of "nat i" rest] show ?thesis by (auto simp: str_int_def)
  qed
  then obtain c cs where c: "str_int i @ rest = c # cs" "is_digit c \<or> c = CHR ''-''"
    by blast
  show ?thesis
    unfolding c(1) using p_value_num [OF c(2)] p_number_str_int [OF r, of i] c(1) by simp
qed

lemma dumps_float_lead:
  "isfinite x \<Longrightarrow> \<exists>c cs. dumps_float x @ rest = c # cs \<and> (is_digit c \<or> c = CHR ''-'')"
proof (cases x)
  case (Decimal neg whole frac)
  obtain c cs where "digits whole @ [] = c # cs" "is_digit c"
    using digits_lead [of whole "[]"] by blast
  with Decimal show ?thesis by (cases neg) (simp_all add: repr_decimal_def)
next
  case (Scientific neg whole frac eneg e)
  obtain c cs where "digits whole @ [] = c # cs" "is_digit c"
    using digits_lead [of whole "[]"] by blast
  with Scientific show ?thesis by (cases neg) (simp_all add: repr_scientific_def)
qed simp_all

lemma p_value_float:
  "isfinite x \<Longrightarrow> ok_rest rest \<Longrightarrow> p_value (Suc n) (dumps_float x @ rest) = Some rest"
proof -
  assume x: "isfinite x" and r: "ok_rest rest"
  obtain c cs where c: "dumps_float x @ rest = c # cs" "is_digit c \<or> c = CHR ''-''"
    using dumps_float_lead [OF x] by blast
  show ?thesis
    unfolding c(1) using p_value_num [OF c(2)] p_number_float [OF x r] c(1) by simp
qed

lemma p_value_str: "p_value (Suc n) (dumps_str s @ rest) = Some rest"
  by (simp add: dumps_str_def p_chars_body)

lemma p_value_lit:
  "p_value (Suc n) (''null'' @ rest) = Some rest"
  "p_value (Suc n) (''true'' @ rest) = Some rest"
  "p_value (Suc n) (''false'' @ rest) = Some rest"
  by (simp_all add: p_literal_def)

lemma p_value_list:
  assumes "xs \<noteq> [] \<Longrightarrow> p_elems n (dumps_items xs @ CHR '']'' # rest) = Some rest"
  shows "p_value (Suc n) (dumps (PList xs) @ rest) = Some rest"
proof (cases xs)
  case Nil
  then show ?thesis by (simp add: skip_ws_punct)
next
  case (Cons x xs')
  obtain c cs where c: "dumps x = c # cs" "opens_value c" using dumps_opens by blast
  then have "c \<noteq> CHR '']''" by (simp add: opens_value_def)
  with c Cons assms show ?thesis
    by (simp add: skip_ws_opens)
qed

lemma dumps_str_lead: "\<exists>cs. dumps_str k = CHR 0x22 # cs"
  by (simp add: dumps_str_def)

lemma p_value_dict:
  assumes "kvs \<noteq> [] \<Longrightarrow> p_members n (dumps_pairs kvs @ CHR ''}'' # rest) = Some rest"
  shows "p_value (Suc n) (dumps (PDict kvs) @ rest) = Some rest"
proof (cases kvs)
  case Nil
  then show ?thesis by (simp add: skip_ws_punct)
next
  case (Cons kv kvs')
  obtain k v where kv: "kv = (k, v)" by (cases kv)
  have q: "opens_value (CHR 0x22)" "CHR 0x22 \<noteq> CHR ''}''"
    by (simp_all add: opens_value_def is_ws_def)
  with Cons kv assms show ?thesis
    by (simp add: dumps_str_def skip_ws_opens)
qed

lemma p_elems_step:
  assumes v: "p_value n (dumps x @ r) = Some r"
    and r: "r = (if xs = [] then CHR '']'' # rest else '', '' @ dumps_items xs @ CHR '']'' # rest)"
    and rec: "xs \<noteq> [] \<Longrightarrow> p_elems n (dumps_items xs @ CHR '']'' # rest) = Some rest"
  shows "p_elems (Suc n) (dumps_items (x # xs) @ CHR '']'' # rest) = Some rest"
proof (cases "xs = []")
  case True
  with v r show ?thesis by (simp add: skip_ws_punct)
next
  case False
  then obtain y ys where y: "xs = y # ys" by (cases xs) auto
  obtain c cs where c: "dumps y = c # cs" "opens_value c" using dumps_opens by blast
  have "skip_ws (CHR '' '' # dumps_items xs @ CHR '']'' # rest) = dumps_items xs @ CHR '']'' # rest"
    using y c by (simp add: skip_ws_space skip_ws_opens)
  with False v r rec show ?thesis by (simp add: skip_ws_punct)
qed

lemma p_members_step:
  assumes v: "p_value n (dumps x @ r) = Some r"
    and r: "r = (if kvs = [] then CHR ''}'' # rest else '', '' @ dumps_pairs kvs @ CHR ''}'' # rest)"
    and rec: "kvs \<noteq> [] \<Longrightarrow> p_members n (dumps_pairs kvs @ CHR ''}'' # rest) = Some rest"
  shows "p_members (Suc n) (dumps_pairs ((k, x) # kvs) @ CHR ''}'' # rest) = Some rest"
proof -
  obtain c cs where c: "dumps x = c # cs" "opens_value c" using dumps_opens by blast
  have key: "p_chars (tl (dumps_str k) @ '': '' @ dumps x @ r) = Some ('': '' @ dumps x @ r)"
    by (rule p_chars_dumps_str)
  have sk: "skip_ws (CHR '' '' # dumps x @ r) = dumps x @ r"
    using c by (simp add: skip_ws_space skip_ws_opens)
  show ?thesis
  proof (cases "kvs = []")
    case True
    with v r key sk show ?thesis by (simp add: dumps_str_def skip_ws_punct)
  next
    case False
    then obtain kv' kvs' where y: "kvs = kv' # kvs'" by (cases kvs) auto
    obtain k' v' where kv': "kv' = (k', v')" by (cases kv')
    have "skip_ws (CHR '' '' # dumps_pairs kvs @ CHR ''}'' # rest) = dumps_pairs kvs @ CHR ''}'' # rest"
      using y kv' by (simp add: skip_ws_space skip_ws_opens dumps_str_def opens_value_def is_ws_def)
    with False v r rec key sk show ?thesis by (simp add: dumps_str_def skip_ws_punct)
  qed
qed


lemma p_dumps:
  "\<forall>n rest. finite_floats v \<longrightarrow> length (dumps v) \<le> n \<longrightarrow> ok_rest rest \<longrightarrow>
      p_value n (dumps v @ rest) = Some rest"
  "\<forall>n rest. finite_items xs \<longrightarrow> xs \<noteq> [] \<longrightarrow> length (dumps_items xs) < n \<longrightarrow>
      p_elems n (dumps_items xs @ CHR '']'' # rest) = Some rest"
  "\<forall>n rest. finite_pairs kvs \<longrightarrow> kvs \<noteq> [] \<longrightarrow> length (dumps_pairs kvs) < n \<longrightarrow>
      p_members n (dumps_pairs kvs @ CHR ''}'' # rest) = Some rest"
proof (induction v and xs and kvs rule: dumps_dumps_items_dumps_pairs.induct)
  case 1
  show ?case
  proof (intro allI impI)
    fix n rest assume "length (dumps PNone) \<le> n" "ok_rest rest"
    with dumps_length [of PNone] obtain m where "n = Suc m" by (cases n) auto
    then show "p_value n (dumps PNone @ rest) = Some rest" using p_value_lit by simp
  qed
next
  case (2 b)
  show ?case
  proof (intro allI impI)
    fix n rest assume "length (dumps (PBool b)) \<le> n" "ok_rest rest"
    with dumps_length [of "PBool b"] obtain m where "n = Suc m" by (cases n) auto
    then show "p_value n (dumps (PBool b) @ rest) = Some rest" using p_value_lit by simp
  qed
next
  case (3 i)
  show ?case
  proof (intro allI impI)
    fix n rest assume "length (dumps (PInt i)) \<le> n" and r: "ok_rest rest"
    with dumps_length [of "PInt i"] obtain m where "n = Suc m" by (cases n) auto
    then show "p_value n (dumps (PInt i) @ rest) = Some rest" using p_value_int [OF r] by simp
  qed
next
  case (4 x)
  show ?case
  proof (intro allI impI)
    fix n rest assume fin: "finite_floats (PFloat x)"
      and "length (dumps (PFloat x)) \<le> n" and r: "ok_rest rest"
    with dumps_length [of "PFloat x"] obtain m where "n = Suc m" by (cases n) auto
    moreover have "isfinite x" using fin by simp
    ultimately show "p_value n (dumps (PFloat x) @ rest) = Some rest"
      using p_value_float [OF _ r, of x] by simp
  qed
next
  case (5 s)
  show ?case
  proof (intro allI impI)
    fix n rest assume "length (dumps (PStr s)) \<le> n"
    with dumps_length [of "PStr s"] obtain m where "n = Suc m" by (cases n) auto
    then show "p_value n (dumps (PStr s) @ rest) = Some rest" using p_value_str by simp
  qed
next
  case (6 xs)
  show ?case
  proof (intro allI impI)
    fix n rest assume fin: "finite_floats (PList xs)" and len: "length (dumps (PList xs)) \<le> n"
    then obtain m where m: "n = Suc m" by (cases n) auto
    with len have "length (dumps_items xs) < m" by simp
    moreover have "finite_items xs" using fin by simp
    ultimately have "xs \<noteq> [] \<Longrightarrow> p_elems m (dumps_items xs @ CHR '']'' # rest) = Some rest"
      using 6 by blast
    then show "p_value n (dumps (PList xs) @ rest) = Some rest"
      unfolding m by (rule p_value_list)
  qed
next
  case (7 kvs)
  show ?case
  proof (intro allI impI)
    fix n rest assume fin: "finite_floats (PDict kvs)" and len: "length (dumps (PDict kvs)) \<le> n"
    then obtain m where m: "n = Suc m" by (cases n) auto
    with len have "length (dumps_pairs kvs) < m" by simp
    moreover have "finite_pairs kvs" using fin by simp
    ultimately have "kvs \<noteq> [] \<Longrightarrow> p_members m (dumps_pairs kvs @ CHR ''}'' # rest) = Some rest"
      using 7 by blast
    then show "p_value n (dumps (PDict kvs) @ rest) = Some rest"
      unfolding m by (rule p_value_dict)
  qed
next
  case 8
  show ?case by simp
next
  case (9 x xs)
  show ?case
  proof (intro allI impI)
    fix n rest assume fin: "finite_items (x # xs)" and len: "length (dumps_items (x # xs)) < n"
    then obtain m where m: "n = Suc m" by (cases n) auto
    define r where "r = (if xs = [] then CHR '']'' # rest else '', '' @ dumps_items xs @ CHR '']'' # rest)"
    have okr: "ok_rest r" by (simp add: r_def ok_rest_def)
    have fx: "finite_floats x" and fxs: "finite_items xs" using fin by simp_all
    have "length (dumps x) \<le> m" using len m by simp
    with 9(1) fx okr have v: "p_value m (dumps x @ r) = Some r" by blast
    have rec: "xs \<noteq> [] \<Longrightarrow> p_elems m (dumps_items xs @ CHR '']'' # rest) = Some rest"
    proof -
      assume ne: "xs \<noteq> []"
      then have "length (dumps_items xs) < m" using len m by simp
      with 9(2) fxs ne show ?thesis by blast
    qed
    show "p_elems n (dumps_items (x # xs) @ CHR '']'' # rest) = Some rest"
      unfolding m using v r_def rec by (rule p_elems_step)
  qed
next
  case 10
  show ?case by simp
next
  case (11 k x kvs)
  show ?case
  proof (intro allI impI)
    fix n rest assume fin: "finite_pairs ((k, x) # kvs)"
      and len: "length (dumps_pairs ((k, x) # kvs)) < n"
    then obtain m where m: "n = Suc m" by (cases n) auto
    define r where "r = (if kvs = [] then CHR ''}'' # rest else '', '' @ dumps_pairs kvs @ CHR ''}'' # rest)"
    have okr: "ok_rest r" by (simp add: r_def ok_rest_def)
    have fx: "finite_floats x" and fkvs: "finite_pairs kvs" using fin by simp_all
    have "length (dumps x) \<le> m" using len m by simp
    with 11(1) fx okr have v: "p_value m (dumps x @ r) = Some r" by blast
    have rec: "kvs \<noteq> [] \<Longrightarrow> p_members m (dumps_pairs kvs @ CHR ''}'' # rest) = Some rest"
    proof -
      assume ne: "kvs \<noteq> []"
      then have "length (dumps_pairs kvs) < m" using len m by simp
      with 11(2) fkvs ne show ?thesis by blast
    qed
    show "p_members n (dumps_pairs ((k, x) # kvs) @ CHR ''}'' # rest) = Some rest"
      unfolding m using v r_def rec by (rule p_members_step)
  qed
qed

text \<open>
  The text that \<open>json.dumps\<close> returns is valid JSON when no float in the value is \<open>nan\<close>,
  \<open>inf\<close> or \<open>-inf\<close>. For those the encoder prints \<open>NaN\<close>, \<open>Infinity\<close> and \<open>-Infinity\<close>,
  which the grammar does not have.
\<close>

lemma json_valid_dumps: "finite_floats v \<Longrightarrow> json_valid (dumps v)"
proof -
  assume fin: "finite_floats v"
  obtain c cs where c: "dumps v = c # cs" "opens_value c" using dumps_opens by blast
  then have sk: "skip_ws (dumps v) = dumps v" by (simp add: skip_ws_opens)
  have "length (dumps v) \<le> Suc (length (dumps v))" by simp
  from p_dumps(1) [rule_format, OF fin this ok_rest_punct(4)]
  have "p_value (Suc (length (dumps v))) (dumps v) = Some []" by (simp only: append_Nil2)
  then show ?thesis
    unfolding json_valid_def sk by (simp add: skip_ws_def)
qed

lemma non_finite_not_json:
  "\<not> json_valid (dumps (PFloat NaN))"
  "\<not> json_valid (dumps (PFloat (Infinity False)))"
  "\<not> json_valid (dumps (PFloat (Infinity True)))"
  by (simp_all add: json_valid_def skip_ws_def is_ws_def p_number_def is_digit_def)

lemma dumps_float_examples:
  "dumps (PFloat (Decimal True 12 [5])) = ''-12.5''"
  "dumps (PFloat (Decimal False 3 [])) = ''3.0''"
  "dumps (PFloat (Scientific False 1 [] False 16)) = ''1e+16''"
  "dumps (PFloat (Scientific True 1 [5] True 7)) = ''-1.5e-07''"
  "dumps (PList [PFloat NaN, PFloat (Infinity False), PFloat (Infinity True)])
     = ''[NaN, Infinity, -Infinity]''"
  by code_simp+

lemma hex_char_line: "d < 16 \<Longrightarrow> hex_char d \<noteq> CHR 0x0A"
proof -
  assume d: "d < 16"
  have "hex_char d = CHR 0x0A \<longleftrightarrow> (of_char (hex_char d) :: nat) = of_char (CHR 0x0A)"
    by (simp only: of_char_eq_iff)
  also have "\<dots> \<longleftrightarrow> False" using d by (simp add: hex_char_def)
  finally show ?thesis by simp
qed

lemma esc_char_line: "CHR 0x0A \<notin> set (esc_char c)"
proof -
  have "hex_char ((of_char c :: nat) mod 16) \<noteq> CHR 0x0A" by (rule hex_char_line) simp
  moreover have "(of_char c :: nat) < 0x20 \<Longrightarrow> hex_char ((of_char c :: nat) div 16) \<noteq> CHR 0x0A"
    by (rule hex_char_line) simp
  ultimately show ?thesis by (auto simp: esc_char_def)
qed

lemma digits_line: "CHR 0x0A \<notin> set (digits n)"
proof -
  have "\<not> is_digit (CHR 0x0A)" by (simp add: is_digit_def)
  with digits_shape [of n] show ?thesis by auto
qed

lemma dumps_str_line: "CHR 0x0A \<notin> set (dumps_str s)"
  by (induction s) (auto simp: dumps_str_def esc_char_line)

lemma dumps_line:
  "CHR 0x0A \<notin> set (dumps v)"
  "CHR 0x0A \<notin> set (dumps_items xs)"
  "CHR 0x0A \<notin> set (dumps_pairs kvs)"
proof (induction v and xs and kvs rule: dumps_dumps_items_dumps_pairs.induct)
  case (4 x)
  have "CHR 0x0A \<notin> set (map (\<lambda>d. digit_char (d mod 10)) frac)" for frac
  proof -
    have "\<not> is_digit (CHR 0x0A)" by (simp add: is_digit_def)
    then show ?thesis using is_digit_digit_char by fastforce
  qed
  then have "CHR 0x0A \<notin> set (dumps_float x)"
    by (cases x) (auto simp: repr_decimal_def repr_scientific_def digits_line)
  then show ?case by simp
qed (auto simp: str_int_def digits_line dumps_str_line)


section \<open>Properties of the event bus\<close>

lemma queue_put_queues [simp]: "queues (queue_put q e b) = queues b"
  by (simp add: queue_put_def)

lemma fold_put_queues: "queues (fold (\<lambda>q. queue_put q e) qs b) = queues b"
  by (induction qs arbitrary: b) simp_all

lemma fold_put_contents_out:
  "q \<notin> set qs \<Longrightarrow> contents (fold (\<lambda>q. queue_put q e) qs b) q = contents b q"
  by (induction qs arbitrary: b) (auto simp: queue_put_def)

lemma fold_put_contents_in:
  "distinct qs \<Longrightarrow> q \<in> set qs \<Longrightarrow>
   contents (fold (\<lambda>q. queue_put q e) qs b) q = contents b q @ [e]"
proof (induction qs arbitrary: b)
  case Nil
  then show ?case by simp
next
  case (Cons a qs)
  show ?case
  proof (cases "q = a")
    case True
    with Cons.prems have "q \<notin> set qs" by simp
    then have "contents (fold (\<lambda>q. queue_put q e) qs (queue_put a e b)) q
               = contents (queue_put a e b) q"
      by (rule fold_put_contents_out)
    moreover have "contents (queue_put a e b) a = contents b a @ [e]"
      by (simp add: queue_put_def)
    ultimately show ?thesis using True by simp
  next
    case False
    with Cons show ?thesis by (simp add: queue_put_def)
  qed
qed

lemma fold_put_fresh: "fresh (fold (\<lambda>q. queue_put q e) qs b) = fresh b"
  by (induction qs arbitrary: b) (simp_all add: queue_put_def)

text \<open>The invariant holds at the start and is kept by all three operations; a new
  subscriber is registered with an empty buffer.\<close>

lemma bus_ok_empty: "bus_ok bus_empty"
  by (simp add: bus_ok_def bus_empty_def)

lemma bus_ok_monitor_endpoint:
  assumes "bus_ok b"
  shows "bus_ok (snd (monitor_endpoint b))"
    and "fst (monitor_endpoint b) \<in> set (queues (snd (monitor_endpoint b)))"
    and "contents (snd (monitor_endpoint b)) (fst (monitor_endpoint b)) = []"
  using assms by (auto simp: bus_ok_def monitor_endpoint_def list_all_iff)

lemma bus_ok_broadcast_event: "bus_ok b \<Longrightarrow> bus_ok (broadcast_event e b)"
  by (simp add: bus_ok_def broadcast_event_def fold_put_fresh fold_put_queues)

lemma bus_ok_monitor_cancelled:
  "bus_ok b \<Longrightarrow> monitor_cancelled q b = Inr b' \<Longrightarrow> bus_ok b'"
  by (auto simp: bus_ok_def monitor_cancelled_def list_all_iff split: if_splits
      dest: notin_set_remove1)

lemma bus_ok_distinct: "bus_ok b \<Longrightarrow> distinct (queues b)"
  by (simp add: bus_ok_def)

lemma broadcast_queues [simp]: "queues (broadcast_event e b) = queues b"
  by (simp add: broadcast_event_def fold_put_queues)

lemma broadcast_in:
  "distinct (queues b) \<Longrightarrow> q \<in> set (queues b) \<Longrightarrow> contents (broadcast_event e b) q = contents b q @ [e]"
  by (simp add: broadcast_event_def fold_put_contents_in)

lemma broadcast_out:
  "q \<notin> set (queues b) \<Longrightarrow> contents (broadcast_event e b) q = contents b q"
  by (simp add: broadcast_event_def fold_put_contents_out)

lemma publish_all_queues [simp]: "queues (publish_all es b) = queues b"
  unfolding publish_all_def by (induction es arbitrary: b) simp_all

lemma publish_all_in:
  "distinct (queues b) \<Longrightarrow> q \<in> set (queues b) \<Longrightarrow> contents (publish_all es b) q = contents b q @ es"
  unfolding publish_all_def
proof (induction es arbitrary: b)
  case Nil
  then show ?case by simp
next
  case (Cons e es)
  have "contents (fold broadcast_event es (broadcast_event e b)) q
        = contents (broadcast_event e b) q @ es"
    using Cons.prems by (intro Cons.IH) simp_all
  with Cons.prems show ?case by (simp add: broadcast_in)
qed

lemma monitor_generator_frames:
  "fst (monitor_generator q b) = map monitor_frame (contents b q)"
proof (induction q b rule: monitor_generator.induct)
  case (1 q b)
  show ?case
  proof (cases "contents b q")
    case Nil
    then show ?thesis by (subst monitor_generator.simps) (simp add: queue_get_def)
  next
    case (Cons x xs)
    let ?b' = "b\<lparr>contents := (contents b)(q := xs)\<rparr>"
    have g: "queue_get q b = Some (x, ?b')" using Cons by (simp add: queue_get_def)
    from 1 [OF g refl] have "fst (monitor_generator q ?b') = map monitor_frame xs" by simp
    then show ?thesis
      using Cons g by (subst monitor_generator.simps) (simp add: case_prod_beta)
  qed
qed

text \<open>
  \<^bold>\<open>C5.\<close> Take a bus whose registered queues are pairwise different objects (each one was
  made by its own call of \<open>monitor_endpoint\<close>), and a subscriber \<open>q\<close> among them with an
  empty buffer. After the events \<open>es\<close> have been published, one call of \<open>broadcast_event\<close>
  each and no subscriber joining or leaving in between, the buffer of \<open>q\<close> holds exactly
  \<open>es\<close> in the order of the calls, and \<open>monitor_generator\<close> reading it to the end yields
  one frame per event in that order. This holds for every registered subscriber, however
  many there are.
\<close>

theorem subscribers_receive_publish_order:
  assumes "distinct (queues b)" and "q \<in> set (queues b)" and "contents b q = []"
  shows "queues (publish_all es b) = queues b
       \<and> contents (publish_all es b) q = es
       \<and> fst (monitor_generator q (publish_all es b)) = map monitor_frame es"
  using assms by (simp add: publish_all_in monitor_generator_frames)

lemma two_subscribers_eq:
  "two_subscribers = \<lparr>queues = [0, 1], contents = (\<lambda>q. []), fresh = 2\<rparr>"
  by (simp add: two_subscribers_def one_subscriber_def bus_empty_def monitor_endpoint_def
      fun_eq_iff numeral_2_eq_2)

theorem subscribers_receive_publish_order_witness:
  "distinct (queues two_subscribers) \<and> 0 \<in> set (queues two_subscribers)
   \<and> 1 \<in> set (queues two_subscribers)
   \<and> contents two_subscribers 0 = [] \<and> contents two_subscribers 1 = []
   \<and> contents (publish_all [PInt 1, PInt 2, PInt 3] two_subscribers) 0 = [PInt 1, PInt 2, PInt 3]
   \<and> contents (publish_all [PInt 1, PInt 2, PInt 3] two_subscribers) 1 = [PInt 1, PInt 2, PInt 3]
   \<and> fst (monitor_generator 1 (publish_all [PInt 1, PInt 2, PInt 3] two_subscribers))
        = [monitor_frame (PInt 1), monitor_frame (PInt 2), monitor_frame (PInt 3)]"
  using subscribers_receive_publish_order [of two_subscribers 0 "[PInt 1, PInt 2, PInt 3]"]
    subscribers_receive_publish_order [of two_subscribers 1 "[PInt 1, PInt 2, PInt 3]"]
  by (simp add: two_subscribers_eq)

theorem unsubscribe_unknown_raises:
  "monitor_cancelled 0 one_subscriber = Inr (one_subscriber\<lparr>queues := []\<rparr>)
   \<and> monitor_cancelled 0 (one_subscriber\<lparr>queues := []\<rparr>) = Inl ValueError
   \<and> monitor_cancelled 0 bus_empty = Inl ValueError"
  by (simp add: monitor_cancelled_def one_subscriber_def bus_empty_def monitor_endpoint_def)

text \<open>
  \<^bold>\<open>C6.\<close> Removing a subscriber \<open>q\<close> that is registered succeeds and takes it off the
  list. A publish after that leaves the buffer of \<open>q\<close> as it was and appends the event to
  the buffer of every subscriber still registered. Removing \<open>q\<close> a second time raises
  \<open>ValueError\<close>: \<open>list.remove\<close> does not accept an element that is absent. A publish
  with no subscriber registered changes nothing.
\<close>

theorem unsubscribe_registered_then_publish:
  assumes "distinct (queues b)" and "q \<in> set (queues b)"
  shows "\<exists>b'. monitor_cancelled q b = Inr b'
           \<and> queues b' = remove1 q (queues b) \<and> q \<notin> set (queues b')
           \<and> contents (broadcast_event e b') q = contents b q
           \<and> (\<forall>q' \<in> set (queues b'). contents (broadcast_event e b') q' = contents b q' @ [e])
           \<and> monitor_cancelled q b' = Inl ValueError
           \<and> broadcast_event e (b\<lparr>queues := []\<rparr>) = b\<lparr>queues := []\<rparr>"
proof -
  let ?b' = "b\<lparr>queues := remove1 q (queues b)\<rparr>"
  have c: "monitor_cancelled q b = Inr ?b'" using assms by (simp add: monitor_cancelled_def)
  have out: "q \<notin> set (queues ?b')" using assms by simp
  have d: "distinct (queues ?b')" using assms by simp
  have "contents (broadcast_event e ?b') q = contents ?b' q" using out by (rule broadcast_out)
  moreover have "\<forall>q' \<in> set (queues ?b'). contents (broadcast_event e ?b') q' = contents b q' @ [e]"
    using broadcast_in [OF d] by simp
  moreover have "monitor_cancelled q ?b' = Inl ValueError"
    using out by (simp add: monitor_cancelled_def)
  moreover have "broadcast_event e (b\<lparr>queues := []\<rparr>) = b\<lparr>queues := []\<rparr>"
    by (simp add: broadcast_event_def)
  ultimately show ?thesis using c out by auto
qed

theorem unsubscribe_registered_then_publish_witness:
  "distinct (queues two_subscribers) \<and> 0 \<in> set (queues two_subscribers)
   \<and> monitor_cancelled 0 two_subscribers = Inr (two_subscribers\<lparr>queues := [1]\<rparr>)
   \<and> contents (broadcast_event (PInt 7) (two_subscribers\<lparr>queues := [1]\<rparr>)) 0 = []
   \<and> contents (broadcast_event (PInt 7) (two_subscribers\<lparr>queues := [1]\<rparr>)) 1 = [PInt 7]
   \<and> monitor_cancelled 0 (two_subscribers\<lparr>queues := [1]\<rparr>) = Inl ValueError"
  using unsubscribe_registered_then_publish [of two_subscribers 0 "PInt 7"]
  by (auto simp add: two_subscribers_eq monitor_cancelled_def)

section \<open>Properties of the request stream\<close>

lemma and_then_closed:
  assumes nil: "P []" and app: "\<And>as bs. P as \<Longrightarrow> P bs \<Longrightarrow> P (as @ bs)"
    and first: "P (fst first)" and second: "\<And>k. P (fst (second k))"
  shows "P (fst (and_then first second k))"
proof (cases first)
  case (Pair as r)
  show ?thesis
  proof (cases r)
    case None
    obtain bs r' where s: "second (k + broadcasts as) = (bs, r')" by (cases "second (k + broadcasts as)")
    have "P as" using first Pair by simp
    moreover have "P bs" using second [of "k + broadcasts as"] s by simp
    ultimately show ?thesis using Pair None s by (simp add: and_then_def app)
  next
    case (Some e)
    with Pair first show ?thesis by (simp add: and_then_def)
  qed
qed

lemma for_each_closed:
  assumes nil: "P []" and app: "\<And>as bs. P as \<Longrightarrow> P bs \<Longrightarrow> P (as @ bs)"
    and body: "\<And>k x. P (fst (body k x))"
  shows "P (fst (for_each body k xs))"
proof (induction xs arbitrary: k)
  case Nil
  show ?case by (simp add: nil)
next
  case (Cons x xs)
  obtain as r where b: "body k x = (as, r)" by (cases "body k x")
  have pa: "P as" using body [of k x] b by simp
  show ?case
  proof (cases r)
    case None
    obtain bs r' where s: "for_each body (k + broadcasts as) xs = (bs, r')"
      by (cases "for_each body (k + broadcasts as) xs")
    have "P bs" using Cons [of "k + broadcasts as"] s by simp
    with pa show ?thesis using b None s by (simp add: app)
  next
    case (Some e)
    with b pa show ?thesis by simp
  qed
qed

lemma on_update_closed:
  assumes nil: "P []" and app: "\<And>as bs. P as \<Longrightarrow> P bs \<Longrightarrow> P (as @ bs)"
    and msg: "\<And>k m. P (fst (on_message clk thread_id k m))"
    and call: "\<And>k c. P (fst (on_tool_call clk thread_id k c))"
    and resp: "\<And>k r. P (fst (on_structured_response clk thread_id k r))"
  shows "P (fst (on_update clk thread_id k u))"
  unfolding on_update_def
proof (rule and_then_closed [where P = P, OF nil app])
  have fm: "P (fst (for_each (on_message clk thread_id) k ms))" for k ms
    by (rule for_each_closed [where P = P and body = "on_message clk thread_id", OF nil app msg])
  have fc: "P (fst (for_each (on_tool_call clk thread_id) k cs))" for k cs
    by (rule for_each_closed [where P = P and body = "on_tool_call clk thread_id", OF nil app call])
  show "P (fst (case messages u of None \<Rightarrow> ([], None)
                | Some ms \<Rightarrow> for_each (on_message clk thread_id) k ms))"
    using fm nil by (simp split: option.split)
  fix k1
  show "P (fst (and_then
           (case tool_calls u of None \<Rightarrow> ([], None)
            | Some calls \<Rightarrow> for_each (on_tool_call clk thread_id) k1 calls)
           (\<lambda>k2. on_structured_response clk thread_id k2 (structured_response u)) k1))"
  proof (rule and_then_closed [where P = P, OF nil app])
    show "P (fst (case tool_calls u of None \<Rightarrow> ([], None)
                  | Some calls \<Rightarrow> for_each (on_tool_call clk thread_id) k1 calls))"
      using fc nil by (simp split: option.split)
    show "P (fst (on_structured_response clk thread_id k2 (structured_response u)))" for k2
      by (rule resp)
  qed
qed

lemma try_block_closed:
  assumes nil: "P []" and app: "\<And>as bs. P as \<Longrightarrow> P bs \<Longrightarrow> P (as @ bs)"
    and msg: "\<And>k m. P (fst (on_message clk thread_id k m))"
    and call: "\<And>k c. P (fst (on_tool_call clk thread_id k c))"
    and resp: "\<And>k r. P (fst (on_structured_response clk thread_id k r))"
  shows "P (fst (try_block clk thread_id k stream))"
  unfolding try_block_def
proof (rule and_then_closed [where P = P, OF nil app])
  have upd: "P (fst (on_update clk thread_id k u))" for k u
    by (rule on_update_closed [where P = P, OF nil app msg call resp])
  have step: "P (fst (for_each (on_update clk thread_id) k step))" for k step
    by (rule for_each_closed [where P = P and body = "on_update clk thread_id", OF nil app upd])
  show "P (fst (for_each (\<lambda>k1 step. for_each (on_update clk thread_id) k1 step) k (fst stream)))"
    by (rule for_each_closed [where P = P
          and body = "\<lambda>k1 step. for_each (on_update clk thread_id) k1 step", OF nil app step])
  show "P (fst ([], case snd stream of Finished \<Rightarrow> None | Raised e \<Rightarrow> Some e))" for k1 :: nat
    by (simp add: nil)
qed

lemma paired_append: "paired as \<Longrightarrow> paired bs \<Longrightarrow> paired (as @ bs)"
  by (induction as rule: paired.induct) simp_all

lemma same_fields_event: "same_fields (data_frame kvs) (event clk k thread_id kvs)"
  by (simp add: same_fields_def data_frame_def event_def)

lemma on_message_paired: "paired (fst (on_message clk thread_id k m))"
  by (cases m) (auto simp: same_fields_event split: pyval.splits)

lemma on_tool_call_paired: "paired (fst (on_tool_call clk thread_id k c))"
  by (cases c) (simp add: same_fields_event)

lemma on_structured_response_paired: "paired (fst (on_structured_response clk thread_id k r))"
  by (cases r) (simp_all add: on_structured_response_def same_fields_def result_frame_def event_def)

lemma try_block_paired: "paired (fst (try_block clk thread_id k stream))"
  by (rule try_block_closed [where P = paired])
    (simp_all add: paired_append on_message_paired on_tool_call_paired
      on_structured_response_paired)


lemma and_then_raise:
  "snd (and_then first second k) =
     (case snd first of Some e \<Rightarrow> Some e | None \<Rightarrow> snd (second (k + broadcasts (fst first))))"
  by (cases first) (auto simp: and_then_def split: option.splits prod.splits)

lemma for_each_raise:
  assumes "\<And>k x e. snd (body k x) = Some e \<Longrightarrow> Q e"
    and "snd (for_each body k xs) = Some e"
  shows "Q e"
  using assms(2)
proof (induction xs arbitrary: k)
  case Nil
  then show ?case by simp
next
  case (Cons x xs)
  obtain as r where b: "body k x = (as, r)" by (cases "body k x")
  show ?case
  proof (cases r)
    case None
    with Cons.prems b have "snd (for_each body (k + broadcasts as) xs) = Some e"
      by (simp split: prod.splits)
    then show ?thesis by (rule Cons.IH)
  next
    case (Some e')
    with Cons.prems b have "e' = e" by simp
    with Some b assms(1) [of k x e] show ?thesis by simp
  qed
qed

lemma for_each_quiet:
  assumes "\<And>k x. x \<in> set xs \<Longrightarrow> snd (body k x) = None"
  shows "snd (for_each body k xs) = None"
  using assms
proof (induction xs arbitrary: k)
  case Nil
  then show ?case by simp
next
  case (Cons x xs)
  obtain as r where b: "body k x = (as, r)" by (cases "body k x")
  with Cons.prems [of x k] have r: "r = None" by simp
  have "snd (for_each body (k + broadcasts as) xs) = None"
    using Cons.prems by (intro Cons.IH) simp
  with b r show ?case by (simp add: case_prod_beta)
qed

lemma on_message_raise: "snd (on_message clk thread_id k m) = Some e \<Longrightarrow> is_exception e"
  by (cases m) (auto simp: is_exception_def split: if_splits pyval.splits)

lemma on_message_quiet: "str_message m \<Longrightarrow> snd (on_message clk thread_id k m) = None"
  by (cases m) (auto split: pyval.splits)

lemma on_tool_call_quiet: "snd (on_tool_call clk thread_id k c) = None"
  by (cases c) simp

lemma on_structured_response_quiet: "snd (on_structured_response clk thread_id k r) = None"
  by (cases r) (simp_all add: on_structured_response_def)

lemma on_update_raise:
  assumes "snd (on_update clk thread_id k u) = Some e"
  shows "is_exception e"
proof -
  have "snd (case messages u of None \<Rightarrow> ([], None)
             | Some ms \<Rightarrow> for_each (on_message clk thread_id) k ms) = Some e"
    using assms
    by (auto simp: on_update_def and_then_raise on_structured_response_quiet for_each_quiet
        on_tool_call_quiet split: option.splits)
  then obtain ms where ms: "snd (for_each (on_message clk thread_id) k ms) = Some e"
    by (auto split: option.splits)
  have "\<And>k x e. snd (on_message clk thread_id k x) = Some e \<Longrightarrow> is_exception e"
    by (rule on_message_raise)
  from for_each_raise [where Q = is_exception, OF this ms] show ?thesis .
qed

lemma on_update_quiet:
  assumes "case messages u of None \<Rightarrow> True | Some ms \<Rightarrow> list_all str_message ms"
  shows "snd (on_update clk thread_id k u) = None"
proof -
  have "snd (case messages u of None \<Rightarrow> ([], None)
             | Some ms \<Rightarrow> for_each (on_message clk thread_id) k ms) = None"
    using assms
    by (auto simp: list_all_iff on_message_quiet for_each_quiet split: option.splits)
  then show ?thesis
    by (auto simp: on_update_def and_then_raise on_structured_response_quiet for_each_quiet
        on_tool_call_quiet split: option.splits)
qed

lemma try_block_raise:
  assumes "snd (try_block clk thread_id k (steps, ending)) = Some e"
  shows "is_exception e \<or> ending = Raised e"
proof (cases "snd (for_each (\<lambda>k1 step. for_each (on_update clk thread_id) k1 step) k steps)")
  case None
  with assms show ?thesis
    by (auto simp: try_block_def and_then_raise split: ending.splits)
next
  case (Some e')
  with assms have "e' = e" by (simp add: try_block_def and_then_raise)
  have upd: "\<And>k u e. snd (on_update clk thread_id k u) = Some e \<Longrightarrow> is_exception e"
    by (rule on_update_raise)
  have inner: "\<And>k1 step x. snd (for_each (on_update clk thread_id) k1 step) = Some x
                 \<Longrightarrow> is_exception x"
    by (rule for_each_raise [where Q = is_exception, OF upd])
  from for_each_raise [where Q = is_exception, OF inner Some] have "is_exception e'" .
  with \<open>e' = e\<close> show ?thesis by simp
qed

lemma try_block_quiet:
  assumes "str_contents steps"
  shows "snd (try_block clk thread_id k (steps, ending)) = stream_raise ending"
proof -
  have inner: "snd (for_each (on_update clk thread_id) k1 step) = None"
    if "step \<in> set steps" for k1 step
  proof (rule for_each_quiet)
    fix k2 u assume "u \<in> set step"
    with that assms have "case messages u of None \<Rightarrow> True | Some ms \<Rightarrow> list_all str_message ms"
      by (auto simp: str_contents_def list_all_iff)
    then show "snd (on_update clk thread_id k2 u) = None" by (rule on_update_quiet)
  qed
  have "snd (for_each (\<lambda>k1 step. for_each (on_update clk thread_id) k1 step) k steps) = None"
    by (rule for_each_quiet) (rule inner)
  then show ?thesis
    by (simp add: try_block_def and_then_raise stream_raise_def)
qed

lemma yielded_append: "yielded (as @ bs) = yielded as @ yielded bs"
  by (induction as rule: yielded.induct) simp_all

lemma published_append: "published (as @ bs) = published as @ published bs"
  by (induction as rule: published.induct) simp_all

lemma same_fields_type: "same_fields f e \<Longrightarrow> frame_type f = event_type e"
  by (auto simp: same_fields_def frame_type_def event_type_def dict_get_def
      split: pyval.splits list.splits)

lemma paired_types: "paired as \<Longrightarrow> map frame_type (yielded as) = map event_type (published as)"
  by (induction as rule: paired.induct) (simp_all add: same_fields_type)

lemma not_done:
  "data_frame kvs \<noteq> done_frame" "result_frame a \<noteq> done_frame" "error_frame d \<noteq> done_frame"
  "start_frame \<noteq> done_frame"
  by (simp_all add: data_frame_def done_frame_def result_frame_def error_frame_def start_frame_def)

lemma try_block_no_done:
  "list_all (\<lambda>a. a \<noteq> Yield done_frame) (fst (try_block clk thread_id k stream))"
proof (rule try_block_closed [where P = "list_all (\<lambda>a. a \<noteq> Yield done_frame)"])
  show "list_all (\<lambda>a. a \<noteq> Yield done_frame) (fst (on_message clk thread_id k m))" for k m
    by (cases m) (auto simp: not_done split: pyval.splits)
  show "list_all (\<lambda>a. a \<noteq> Yield done_frame) (fst (on_tool_call clk thread_id k c))" for k c
    by (cases c) (simp add: not_done)
  show "list_all (\<lambda>a. a \<noteq> Yield done_frame) (fst (on_structured_response clk thread_id k r))"
    for k r
    by (cases r) (simp_all add: on_structured_response_def not_done)
qed simp_all

lemma event_type_event: "event_type (event clk k thread_id ((''type'', t) # kvs)) = t"
  by (simp add: event_type_def event_def dict_get_def)

lemma frame_type_data_frame: "frame_type (data_frame ((''type'', t) # kvs)) = t"
  by (simp add: frame_type_def data_frame_def event_type_def dict_get_def)

lemma sse_generator_shape:
  "\<exists>mid closing.
      fst (sse_generator clk agent msg thread_id)
        = [Broadcast (event clk 0 thread_id
             [(''type'', PStr ''start''), (''content'', PStr (''New Request: '' @ msg))]),
           Yield start_frame] @ mid @ closing
    \<and> paired mid
    \<and> list_all (\<lambda>a. a \<noteq> Yield done_frame) mid
    \<and> closing = (if snd (sse_generator clk agent msg thread_id) = Returned
                  then [Yield done_frame] else [])
    \<and> (\<forall>d. snd (try_block clk thread_id 1 (agent msg thread_id)) = Some (Exception d) \<longrightarrow>
          (\<exists>body e. mid = body @ [Yield (error_frame d), Broadcast e]
                    \<and> event_type e = PStr ''error''))
    \<and> (snd (sse_generator clk agent msg thread_id) = Returned
          \<longleftrightarrow> (\<forall>d. snd (try_block clk thread_id 1 (agent msg thread_id)) \<noteq> Some (BaseException d)))"
proof -
  obtain body r where tb: "try_block clk thread_id 1 (agent msg thread_id) = (body, r)"
    by (cases "try_block clk thread_id 1 (agent msg thread_id)")
  have pb: "paired body" using try_block_paired [of clk thread_id 1 "agent msg thread_id"] tb by simp
  have nb: "list_all (\<lambda>a. a \<noteq> Yield done_frame) body"
    using try_block_no_done [of clk thread_id 1 "agent msg thread_id"] tb by simp
  show ?thesis
  proof (cases r)
    case None
    with tb pb nb show ?thesis
      by (intro exI [of _ body] exI [of _ "[Yield done_frame]"]) (simp add: sse_generator_def)
  next
    case (Some e)
    show ?thesis
    proof (cases e)
      case (Exception d)
      let ?ev = "event clk (Suc (broadcasts body)) thread_id
                   [(''type'', PStr ''error''), (''content'', PStr d)]"
      have sf: "same_fields (error_frame d) ?ev"
        by (simp add: same_fields_def error_frame_def event_def)
      have et: "event_type ?ev = PStr ''error''"
        by (simp add: event_type_def event_def dict_get_def)
      have "paired (body @ [Yield (error_frame d), Broadcast ?ev])"
        using pb sf by (simp add: paired_append)
      moreover have "list_all (\<lambda>a. a \<noteq> Yield done_frame) (body @ [Yield (error_frame d), Broadcast ?ev])"
        using nb by (simp add: not_done)
      ultimately show ?thesis
        using tb Some Exception et
        by (intro exI [of _ "body @ [Yield (error_frame d), Broadcast ?ev]"]
            exI [of _ "[Yield done_frame]"]) (simp add: sse_generator_def)
    next
      case (BaseException d)
      with tb Some pb nb show ?thesis
        by (intro exI [of _ body] exI [of _ "[]"]) (simp add: sse_generator_def)
    qed
  qed
qed

text \<open>
  \<^bold>\<open>C1.\<close> A run of the generator, consumed to its end, has this shape: the start event is
  published and then the start frame is yielded; after that every frame yielded is
  followed at once by the publication of an event with the same fields (the frame's JSON
  object with \<open>timestamp\<close> and \<open>thread_id\<close> in front); last, when the run returns, the
  done frame is yielded and nothing is published for it. So the kinds of the events
  published are, in the same order, the kinds of the frames yielded without the final
  \<open>done\<close>.
\<close>

theorem published_is_yielded_but_done:
  "\<exists>mid.
      fst (sse_generator clk agent msg thread_id)
        = [Broadcast (event clk 0 thread_id
             [(''type'', PStr ''start''), (''content'', PStr (''New Request: '' @ msg))]),
           Yield start_frame]
          @ mid
          @ (if snd (sse_generator clk agent msg thread_id) = Returned then [Yield done_frame] else [])
    \<and> paired mid
    \<and> map frame_type (yielded (fst (sse_generator clk agent msg thread_id)))
        = map event_type (published (fst (sse_generator clk agent msg thread_id)))
          @ (if snd (sse_generator clk agent msg thread_id) = Returned then [PStr ''done''] else [])"
proof -
  from sse_generator_shape [of clk agent msg thread_id]
  obtain mid where mid:
    "fst (sse_generator clk agent msg thread_id)
        = [Broadcast (event clk 0 thread_id
             [(''type'', PStr ''start''), (''content'', PStr (''New Request: '' @ msg))]),
           Yield start_frame] @ mid
          @ (if snd (sse_generator clk agent msg thread_id) = Returned then [Yield done_frame] else [])"
    "paired mid"
    by blast
  have st: "frame_type start_frame = PStr ''start''"
    by (simp add: frame_type_def start_frame_def)
  have dn: "frame_type done_frame = PStr ''done''"
    by (simp add: frame_type_def done_frame_def)
  have "map frame_type (yielded (fst (sse_generator clk agent msg thread_id)))
        = map event_type (published (fst (sse_generator clk agent msg thread_id)))
          @ (if snd (sse_generator clk agent msg thread_id) = Returned then [PStr ''done''] else [])"
    unfolding mid(1) using paired_types [OF mid(2)]
    by (simp add: yielded_append published_append st dn event_type_event)
  with mid show ?thesis by blast
qed

text \<open>
  \<^bold>\<open>C4.\<close> When the agent's stream ends normally or by raising an instance of
  \<open>Exception\<close>, the generator returns, the done frame is the last thing it does and it
  occurs nowhere before. When the stream raises \<open>Exception\<close> with detail \<open>d\<close> and the
  steps before it could be processed (every \<open>AIMessage\<close> content is a \<open>str\<close> or empty),
  the run ends with the error frame for \<open>d\<close>, the publication of the error event, and the
  done frame.
\<close>

theorem done_frame_is_last:
  assumes stream: "agent msg thread_id = (steps, ending)"
    and caught: "ending = Finished \<or> (\<exists>d. ending = Raised (Exception d))"
  shows "snd (sse_generator clk agent msg thread_id) = Returned
       \<and> (\<exists>pre. fst (sse_generator clk agent msg thread_id) = pre @ [Yield done_frame]
               \<and> Yield done_frame \<notin> set pre
               \<and> (\<forall>d. ending = Raised (Exception d) \<and> str_contents steps \<longrightarrow>
                     (\<exists>body e. pre = body @ [Yield (error_frame d), Broadcast e]
                               \<and> event_type e = PStr ''error'')))"
proof -
  from sse_generator_shape [of clk agent msg thread_id]
  obtain mid closing where s:
    "fst (sse_generator clk agent msg thread_id)
        = [Broadcast (event clk 0 thread_id
             [(''type'', PStr ''start''), (''content'', PStr (''New Request: '' @ msg))]),
           Yield start_frame] @ mid @ closing"
    "list_all (\<lambda>a. a \<noteq> Yield done_frame) mid"
    "closing = (if snd (sse_generator clk agent msg thread_id) = Returned
                  then [Yield done_frame] else [])"
    "\<forall>d. snd (try_block clk thread_id 1 (agent msg thread_id)) = Some (Exception d) \<longrightarrow>
          (\<exists>body e. mid = body @ [Yield (error_frame d), Broadcast e]
                    \<and> event_type e = PStr ''error'')"
    "snd (sse_generator clk agent msg thread_id) = Returned
          \<longleftrightarrow> (\<forall>d. snd (try_block clk thread_id 1 (agent msg thread_id)) \<noteq> Some (BaseException d))"
    by blast
  have nobase: "snd (try_block clk thread_id 1 (agent msg thread_id)) \<noteq> Some (BaseException d)" for d
  proof
    assume "snd (try_block clk thread_id 1 (agent msg thread_id)) = Some (BaseException d)"
    then have "is_exception (BaseException d) \<or> ending = Raised (BaseException d)"
      unfolding stream by (rule try_block_raise)
    with caught show False by (auto simp: is_exception_def)
  qed
  with s(5) have ret: "snd (sse_generator clk agent msg thread_id) = Returned" by simp
  let ?pre = "[Broadcast (event clk 0 thread_id
             [(''type'', PStr ''start''), (''content'', PStr (''New Request: '' @ msg))]),
           Yield start_frame] @ mid"
  have eq: "fst (sse_generator clk agent msg thread_id) = ?pre @ [Yield done_frame]"
    using s(1,3) ret by simp
  have nd: "Yield done_frame \<notin> set ?pre"
    using s(2) not_done(4) by (auto simp: list_all_iff)
  have err: "\<exists>body e. ?pre = body @ [Yield (error_frame d), Broadcast e] \<and> event_type e = PStr ''error''"
    if "ending = Raised (Exception d)" "str_contents steps" for d
  proof -
    have "snd (try_block clk thread_id 1 (agent msg thread_id)) = Some (Exception d)"
      unfolding stream using that by (simp add: try_block_quiet stream_raise_def)
    with s(4) obtain body e where "mid = body @ [Yield (error_frame d), Broadcast e]"
      "event_type e = PStr ''error''" by blast
    then show ?thesis
      by (intro exI [of _ "[Broadcast (event clk 0 thread_id
             [(''type'', PStr ''start''), (''content'', PStr (''New Request: '' @ msg))]),
           Yield start_frame] @ body"] exI [of _ e]) simp
  qed
  show ?thesis
    using ret eq nd err by blast
qed


lemmas run_defs = sse_generator_def try_block_def on_update_def and_then_def
  on_structured_response_def broadcasts_def startswith_def

theorem done_is_not_published:
  "map frame_type (yielded (fst (sse_generator demo_clock idle_agent ''hi'' 1)))
     = [PStr ''start'', PStr ''done'']
   \<and> map event_type (published (fst (sse_generator demo_clock idle_agent ''hi'' 1)))
     = [PStr ''start'']
   \<and> map frame_type (yielded (fst (sse_generator demo_clock idle_agent ''hi'' 1)))
     \<noteq> map event_type (published (fst (sse_generator demo_clock idle_agent ''hi'' 1)))"
  by (simp add: run_defs idle_agent_def frame_type_def start_frame_def done_frame_def
      event_type_event)

lemma demo_run:
  "snd (sse_generator demo_clock demo_agent ''hi'' 1) = Returned"
  "map frame_type (yielded (fst (sse_generator demo_clock demo_agent ''hi'' 1)))
     = [PStr ''start'', PStr ''thought'', PStr ''tool_call'', PStr ''tool_result'',
        PStr ''answer'', PStr ''done'']"
  "map event_type (published (fst (sse_generator demo_clock demo_agent ''hi'' 1)))
     = [PStr ''start'', PStr ''thought'', PStr ''tool_call'', PStr ''tool_result'',
        PStr ''answer'']"
  by code_simp+

theorem published_is_yielded_but_done_witness:
  "snd (sse_generator demo_clock demo_agent ''hi'' 1) = Returned
   \<and> map frame_type (yielded (fst (sse_generator demo_clock demo_agent ''hi'' 1)))
     = map event_type (published (fst (sse_generator demo_clock demo_agent ''hi'' 1)))
       @ [PStr ''done'']
   \<and> map event_type (published (fst (sse_generator demo_clock demo_agent ''hi'' 1)))
     = [PStr ''start'', PStr ''thought'', PStr ''tool_call'', PStr ''tool_result'',
        PStr ''answer'']"
  using published_is_yielded_but_done [of demo_clock demo_agent "''hi''" 1]
  by (simp add: demo_run)

theorem cancelled_stream_has_no_done:
  "snd (sse_generator demo_clock cancelled_agent ''hi'' 1) = Propagated (BaseException '''')
   \<and> yielded (fst (sse_generator demo_clock cancelled_agent ''hi'' 1)) = [start_frame]
   \<and> done_frame \<notin> set (yielded (fst (sse_generator demo_clock cancelled_agent ''hi'' 1)))"
  by (simp add: run_defs cancelled_agent_def start_frame_def done_frame_def)

theorem done_frame_is_last_witness:
  "failing_agent ''hi'' 1
     = ([[\<lparr>messages = Some [AIMessage (PStr ''x'')], tool_calls = None,
           structured_response = None\<rparr>]], Raised (Exception ''boom''))
   \<and> snd (sse_generator demo_clock failing_agent ''hi'' 1) = Returned
   \<and> yielded (fst (sse_generator demo_clock failing_agent ''hi'' 1))
     = [start_frame, data_frame [(''type'', PStr ''thought''), (''content'', PStr ''x'')],
        error_frame ''boom'', done_frame]"
  using done_frame_is_last [of failing_agent "''hi''" 1
      "[[\<lparr>messages = Some [AIMessage (PStr ''x'')], tool_calls = None,
           structured_response = None\<rparr>]]" "Raised (Exception ''boom'')" demo_clock]
  by (simp add: run_defs failing_agent_def)

lemma start_text_not_json: "\<not> json_valid start_text"
  by (simp add: json_valid_def start_text_def skip_ws_def is_ws_def p_number_def is_digit_def)

lemma done_text_not_json: "\<not> json_valid ''[DONE]''"
  by (simp add: json_valid_def skip_ws_def is_ws_def p_number_def is_digit_def)

theorem start_and_done_are_not_json:
  "start_frame \<in> set (yielded (fst (sse_generator demo_clock idle_agent ''hi'' 1)))
   \<and> done_frame \<in> set (yielded (fst (sse_generator demo_clock idle_agent ''hi'' 1)))
   \<and> \<not> json_valid (data_text (frame_data start_frame))
   \<and> \<not> json_valid (data_text (frame_data done_frame))"
  by (simp add: run_defs idle_agent_def start_frame_def done_frame_def start_text_not_json
      done_text_not_json)


lemma event_types_closed:
  "list_all (\<lambda>a. case a of
        Yield f \<Rightarrow>
          CHR 0x0A \<notin> set (data_text (frame_data f))
          \<and> (finite_payload (frame_data f) \<longrightarrow> json_valid (data_text (frame_data f)))
          \<and> (frame_label f = None
                \<and> frame_type f \<in> {PStr ''thought'', PStr ''tool_call'', PStr ''tool_result''}
              \<or> frame_label f = Some ''result'' \<and> frame_type f = PStr ''answer'')
      | Broadcast e \<Rightarrow>
          event_type e \<in> {PStr ''thought'', PStr ''tool_call'', PStr ''tool_result'', PStr ''answer''})
     (fst (try_block clk thread_id k stream))"
  (is "list_all ?Q _")
proof (rule try_block_closed [where P = "list_all ?Q"])
  have df: "?Q (Yield (data_frame ((''type'', t) # kvs)))"
    if "t \<in> {PStr ''thought'', PStr ''tool_call'', PStr ''tool_result''}" for t kvs
    using that json_valid_dumps [of "PDict ((''type'', t) # kvs)"]
      dumps_line(1) [of "PDict ((''type'', t) # kvs)"]
    by (simp add: frame_type_data_frame del: dumps.simps finite_floats.simps)
      (simp add: data_frame_def del: dumps.simps finite_floats.simps)
  have ev: "?Q (Broadcast (event clk k thread_id ((''type'', t) # kvs)))"
    if "t \<in> {PStr ''thought'', PStr ''tool_call'', PStr ''tool_result'', PStr ''answer''}"
    for t kvs k
    using that by (simp add: event_type_event)
  have rf: "?Q (Yield (result_frame a))" for a
    using json_valid_dumps [of "PDict [(''type'', PStr ''answer''), (''content'', a)]"]
      dumps_line(1) [of "PDict [(''type'', PStr ''answer''), (''content'', a)]"]
    by (simp add: result_frame_def frame_type_def event_type_def dict_get_def
        del: dumps.simps finite_floats.simps)
  have in3: "PStr ''thought'' \<in> {PStr ''thought'', PStr ''tool_call'', PStr ''tool_result''}"
    "PStr ''tool_call'' \<in> {PStr ''thought'', PStr ''tool_call'', PStr ''tool_result''}"
    "PStr ''tool_result'' \<in> {PStr ''thought'', PStr ''tool_call'', PStr ''tool_result''}"
    by simp_all
  have in4:
    "PStr ''thought'' \<in> {PStr ''thought'', PStr ''tool_call'', PStr ''tool_result'', PStr ''answer''}"
    "PStr ''tool_call'' \<in> {PStr ''thought'', PStr ''tool_call'', PStr ''tool_result'', PStr ''answer''}"
    "PStr ''tool_result'' \<in> {PStr ''thought'', PStr ''tool_call'', PStr ''tool_result'', PStr ''answer''}"
    "PStr ''answer'' \<in> {PStr ''thought'', PStr ''tool_call'', PStr ''tool_result'', PStr ''answer''}"
    by simp_all
  show "list_all ?Q (fst (on_message clk thread_id k m))" for k m
  proof (cases m)
    case (AIMessage content)
    then show ?thesis
      using df [OF in3(1), of "[(''content'', content)]"]
        ev [OF in4(1), of k "[(''content'', content)]"]
      by (cases content) (simp_all del: insert_iff)
  next
    case (ToolMessage name content tool_call_id)
    then show ?thesis
      using df [OF in3(3),
          of "[(''name'', name), (''content'', content), (''tool_call_id'', tool_call_id)]"]
        ev [OF in4(3), of k
          "[(''name'', name), (''content'', content), (''tool_call_id'', tool_call_id)]"]
      by (simp del: insert_iff)
  next
    case OtherMessage
    then show ?thesis by simp
  qed
  show "list_all ?Q (fst (on_tool_call clk thread_id k c))" for k c
  proof (cases c)
    case (ToolCall name args)
    then show ?thesis
      using df [OF in3(2), of "[(''name'', name), (''args'', args)]"]
        ev [OF in4(2), of k "[(''name'', name), (''args'', args)]"]
      by (simp del: insert_iff)
  qed
  show "list_all ?Q (fst (on_structured_response clk thread_id k r))" for k r
  proof (cases r)
    case None
    then show ?thesis by (simp add: on_structured_response_def)
  next
    case (Some a)
    then show ?thesis
      using rf [of a] ev [OF in4(4), of k "[(''content'', a)]"]
      by (simp add: on_structured_response_def del: insert_iff)
  qed
qed simp_all


lemma yielded_set: "f \<in> set (yielded as) \<longleftrightarrow> Yield f \<in> set as"
  by (induction as rule: yielded.induct) auto

lemma published_set: "e \<in> set (published as) \<longleftrightarrow> Broadcast e \<in> set as"
  by (induction as rule: published.induct) auto

lemma start_text_line: "CHR 0x0A \<notin> set start_text"
  by (simp add: start_text_def)

lemma error_frame_ok:
  "CHR 0x0A \<notin> set (data_text (frame_data (error_frame d)))"
  "json_valid (data_text (frame_data (error_frame d)))"
  "frame_label (error_frame d) = Some ''error''"
  "frame_type (error_frame d) = PStr ''error''"
proof -
  have "finite_floats (PDict [(''type'', PStr ''error''), (''content'', PStr d)])"
    by simp
  then have "json_valid (dumps (PDict [(''type'', PStr ''error''), (''content'', PStr d)]))"
    by (rule json_valid_dumps)
  then show "json_valid (data_text (frame_data (error_frame d)))"
    by (simp add: error_frame_def)
  show "CHR 0x0A \<notin> set (data_text (frame_data (error_frame d)))"
    using dumps_line(1) [of "PDict [(''type'', PStr ''error''), (''content'', PStr d)]"]
    by (simp add: error_frame_def)
qed (simp_all add: error_frame_def frame_type_def event_type_def dict_get_def)

text \<open>
  \<^bold>\<open>C9.\<close> Every frame \<open>f\<close> that \<open>sse_generator\<close> yields is sent as an optional
  \<open>event: <label>\<close> line, a \<open>data:\<close> line and an empty line; its data contains no line
  break; its label is absent or one of \<open>start\<close>, \<open>result\<close>, \<open>error\<close>, \<open>done\<close>. It is
  the start frame or the done frame, whose data are the fixed texts, or it is an unlabelled
  frame of type \<open>thought\<close>, \<open>tool_call\<close> or \<open>tool_result\<close>, the \<open>result\<close> frame of type
  \<open>answer\<close>, or the \<open>error\<close> frame of type \<open>error\<close>, and then its data is valid JSON
  provided that the value given to \<open>json.dumps\<close> holds no float that is \<open>nan\<close>, \<open>inf\<close> or
  \<open>-inf\<close>. Every event \<open>e\<close> it publishes has one of the types \<open>start\<close>, \<open>thought\<close>,
  \<open>tool_call\<close>, \<open>tool_result\<close>, \<open>answer\<close>, \<open>error\<close>. Every frame \<open>g\<close> that
  \<open>monitor_generator\<close> yields is unlabelled, a \<open>data:\<close> line and an empty line, and its
  data is the \<open>json.dumps\<close> text of an event from the queue, valid JSON under the same
  proviso.
\<close>

theorem frames_are_framed:
  "(f \<in> set (yielded (fst (sse_generator clk agent msg thread_id))) \<longrightarrow>
       wire f = (case frame_label f of None \<Rightarrow> [] | Some l \<Rightarrow> ''event: '' @ l @ [CHR 0x0A])
                @ ''data: '' @ data_text (frame_data f) @ [CHR 0x0A, CHR 0x0A]
     \<and> CHR 0x0A \<notin> set (data_text (frame_data f))
     \<and> frame_label f \<in> {None, Some ''start'', Some ''result'', Some ''error'', Some ''done''}
     \<and> (f = start_frame \<or> f = done_frame
        \<or> (finite_payload (frame_data f) \<longrightarrow> json_valid (data_text (frame_data f)))
          \<and> (frame_label f = None
                \<and> frame_type f \<in> {PStr ''thought'', PStr ''tool_call'', PStr ''tool_result''}
              \<or> frame_label f = Some ''result'' \<and> frame_type f = PStr ''answer''
              \<or> frame_label f = Some ''error'' \<and> frame_type f = PStr ''error'')))
   \<and> (e \<in> set (published (fst (sse_generator clk agent msg thread_id))) \<longrightarrow>
       event_type e \<in> {PStr ''start'', PStr ''thought'', PStr ''tool_call'', PStr ''tool_result'',
                        PStr ''answer'', PStr ''error''})
   \<and> (g \<in> set (fst (monitor_generator q b)) \<longrightarrow>
       g \<in> monitor_frame ` set (contents b q)
     \<and> wire g = ''data: '' @ data_text (frame_data g) @ [CHR 0x0A, CHR 0x0A]
     \<and> CHR 0x0A \<notin> set (data_text (frame_data g))
     \<and> (finite_payload (frame_data g) \<longrightarrow> json_valid (data_text (frame_data g))))"
proof (intro conjI impI)
  obtain body r where tb: "try_block clk thread_id 1 (agent msg thread_id) = (body, r)"
    by (cases "try_block clk thread_id 1 (agent msg thread_id)")
  let ?Q = "\<lambda>a. case a of
        Yield f \<Rightarrow>
          CHR 0x0A \<notin> set (data_text (frame_data f))
          \<and> (finite_payload (frame_data f) \<longrightarrow> json_valid (data_text (frame_data f)))
          \<and> (frame_label f = None
                \<and> frame_type f \<in> {PStr ''thought'', PStr ''tool_call'', PStr ''tool_result''}
              \<or> frame_label f = Some ''result'' \<and> frame_type f = PStr ''answer'')
      | Broadcast e \<Rightarrow>
          event_type e \<in> {PStr ''thought'', PStr ''tool_call'', PStr ''tool_result'', PStr ''answer''}"
  have body: "list_all ?Q body"
    using event_types_closed [of clk thread_id 1 "agent msg thread_id"] tb by simp
  have split: "set (fst (sse_generator clk agent msg thread_id))
        \<subseteq> set body \<union> {Broadcast (event clk 0 thread_id
                 [(''type'', PStr ''start''), (''content'', PStr (''New Request: '' @ msg))]),
               Yield start_frame, Yield done_frame}
          \<union> (\<Union>d. {Yield (error_frame d),
                 Broadcast (event clk (Suc (broadcasts body)) thread_id
                   [(''type'', PStr ''error''), (''content'', PStr d)])})"
    using tb by (auto simp: sse_generator_def Let_def split: option.splits py_raise.splits)
  {
    assume "f \<in> set (yielded (fst (sse_generator clk agent msg thread_id)))"
    then have "Yield f \<in> set (fst (sse_generator clk agent msg thread_id))"
      by (simp add: yielded_set)
    with split consider "Yield f \<in> set body" | "f = start_frame" | "f = done_frame"
      | d where "f = error_frame d"
      by auto
    then have main: "CHR 0x0A \<notin> set (data_text (frame_data f))
       \<and> frame_label f \<in> {None, Some ''start'', Some ''result'', Some ''error'', Some ''done''}
       \<and> (f = start_frame \<or> f = done_frame
        \<or> (finite_payload (frame_data f) \<longrightarrow> json_valid (data_text (frame_data f)))
          \<and> (frame_label f = None
                \<and> frame_type f \<in> {PStr ''thought'', PStr ''tool_call'', PStr ''tool_result''}
              \<or> frame_label f = Some ''result'' \<and> frame_type f = PStr ''answer''
              \<or> frame_label f = Some ''error'' \<and> frame_type f = PStr ''error''))"
    proof cases
      case 1
      with body have "?Q (Yield f)" unfolding list_all_iff by blast
      then show ?thesis by auto
    next
      case 2
      then show ?thesis by (simp add: start_frame_def start_text_line)
    next
      case 3
      then show ?thesis by (simp add: done_frame_def)
    next
      case 4
      then show ?thesis using error_frame_ok [of d] by simp
    qed
    show "wire f = (case frame_label f of None \<Rightarrow> [] | Some l \<Rightarrow> ''event: '' @ l @ [CHR 0x0A])
                @ ''data: '' @ data_text (frame_data f) @ [CHR 0x0A, CHR 0x0A]"
      by (simp add: wire_def)
    show "CHR 0x0A \<notin> set (data_text (frame_data f))" using main by blast
    show "frame_label f \<in> {None, Some ''start'', Some ''result'', Some ''error'', Some ''done''}"
      using main by blast
    show "f = start_frame \<or> f = done_frame
        \<or> (finite_payload (frame_data f) \<longrightarrow> json_valid (data_text (frame_data f)))
          \<and> (frame_label f = None
                \<and> frame_type f \<in> {PStr ''thought'', PStr ''tool_call'', PStr ''tool_result''}
              \<or> frame_label f = Some ''result'' \<and> frame_type f = PStr ''answer''
              \<or> frame_label f = Some ''error'' \<and> frame_type f = PStr ''error'')"
      using main by blast
  }
  {
    assume "e \<in> set (published (fst (sse_generator clk agent msg thread_id)))"
    then have "Broadcast e \<in> set (fst (sse_generator clk agent msg thread_id))"
      by (simp add: published_set)
    with split consider "Broadcast e \<in> set body"
      | "e = event clk 0 thread_id
                 [(''type'', PStr ''start''), (''content'', PStr (''New Request: '' @ msg))]"
      | d where "e = event clk (Suc (broadcasts body)) thread_id
                   [(''type'', PStr ''error''), (''content'', PStr d)]"
      by auto
    then show "event_type e \<in> {PStr ''start'', PStr ''thought'', PStr ''tool_call'',
                  PStr ''tool_result'', PStr ''answer'', PStr ''error''}"
    proof cases
      case 1
      with body have "?Q (Broadcast e)" unfolding list_all_iff by blast
      then show ?thesis by auto
    next
      case 2
      then show ?thesis by (simp add: event_type_event)
    next
      case 3
      then show ?thesis by (simp add: event_type_event)
    qed
  }
  {
    assume "g \<in> set (fst (monitor_generator q b))"
    then show in_q: "g \<in> monitor_frame ` set (contents b q)"
      by (simp add: monitor_generator_frames)
    then obtain data where g: "g = monitor_frame data" by blast
    show "wire g = ''data: '' @ data_text (frame_data g) @ [CHR 0x0A, CHR 0x0A]"
      using g by (simp add: wire_def monitor_frame_def)
    show "CHR 0x0A \<notin> set (data_text (frame_data g))"
      using g dumps_line(1) [of data] by (simp add: monitor_frame_def)
    assume "finite_payload (frame_data g)"
    then have "finite_floats data" using g by (simp add: monitor_frame_def)
    then have "json_valid (dumps data)" by (rule json_valid_dumps)
    then show "json_valid (data_text (frame_data g))"
      using g by (simp add: monitor_frame_def)
  }
qed


lemma demo_members:
  "data_frame [(''type'', PStr ''thought''), (''content'', PStr ''x'')]
     \<in> set (yielded (fst (sse_generator demo_clock demo_agent ''hi'' 1)))"
  "event demo_clock 1 1 [(''type'', PStr ''thought''), (''content'', PStr ''x'')]
     \<in> set (published (fst (sse_generator demo_clock demo_agent ''hi'' 1)))"
  "monitor_frame (demo_clock 0)
     \<in> set (fst (monitor_generator 0 (publish_all [demo_clock 0] one_subscriber)))"
  by code_simp+

lemma demo_wire:
  "wire (data_frame [(''type'', PStr ''thought''), (''content'', PStr ''x'')])
     = ''data: {\"type\": \"thought\", \"content\": \"x\"}'' @ [CHR 0x0A, CHR 0x0A]"
  "wire (monitor_frame (demo_clock 0)) = ''data: 100.25'' @ [CHR 0x0A, CHR 0x0A]"
  by code_simp+

theorem frames_are_framed_witness:
  "data_frame [(''type'', PStr ''thought''), (''content'', PStr ''x'')]
     \<in> set (yielded (fst (sse_generator demo_clock demo_agent ''hi'' 1)))
   \<and> wire (data_frame [(''type'', PStr ''thought''), (''content'', PStr ''x'')])
     = ''data: {\"type\": \"thought\", \"content\": \"x\"}'' @ [CHR 0x0A, CHR 0x0A]
   \<and> finite_payload (frame_data
         (data_frame [(''type'', PStr ''thought''), (''content'', PStr ''x'')]))
   \<and> json_valid (data_text (frame_data
         (data_frame [(''type'', PStr ''thought''), (''content'', PStr ''x'')])))
   \<and> event demo_clock 1 1 [(''type'', PStr ''thought''), (''content'', PStr ''x'')]
     \<in> set (published (fst (sse_generator demo_clock demo_agent ''hi'' 1)))
   \<and> monitor_frame (demo_clock 0)
     \<in> set (fst (monitor_generator 0 (publish_all [demo_clock 0] one_subscriber)))
   \<and> wire (monitor_frame (demo_clock 0)) = ''data: 100.25'' @ [CHR 0x0A, CHR 0x0A]
   \<and> finite_payload (frame_data (monitor_frame (demo_clock 0)))
   \<and> json_valid (data_text (frame_data (monitor_frame (demo_clock 0))))"
proof -
  note inst = frames_are_framed [of
      "data_frame [(''type'', PStr ''thought''), (''content'', PStr ''x'')]"
      demo_clock demo_agent "''hi''" 1
      "event demo_clock 1 1 [(''type'', PStr ''thought''), (''content'', PStr ''x'')]"
      "monitor_frame (demo_clock 0)" 0 "publish_all [demo_clock 0] one_subscriber"]
  have ne: "data_frame [(''type'', PStr ''thought''), (''content'', PStr ''x'')] \<noteq> start_frame"
    "data_frame [(''type'', PStr ''thought''), (''content'', PStr ''x'')] \<noteq> done_frame"
    by (simp_all add: data_frame_def start_frame_def done_frame_def)
  have fin: "finite_payload (frame_data
         (data_frame [(''type'', PStr ''thought''), (''content'', PStr ''x'')]))"
    "finite_payload (frame_data (monitor_frame (demo_clock 0)))"
    by (simp_all add: data_frame_def monitor_frame_def demo_clock_def)
  from inst demo_members(1) ne fin(1)
  have "json_valid (data_text (frame_data
         (data_frame [(''type'', PStr ''thought''), (''content'', PStr ''x'')])))"
    by blast
  moreover from inst demo_members(3) fin(2)
  have "json_valid (data_text (frame_data (monitor_frame (demo_clock 0))))"
    by blast
  ultimately show ?thesis
    using demo_members demo_wire fin by blast
qed

text \<open>
  The proviso is needed: a tool call whose arguments hold \<open>nan\<close> is sent as a frame whose
  data is not JSON.
\<close>

lemma nan_frame_members:
  "data_frame [(''type'', PStr ''tool_call''), (''name'', PStr ''resize''),
               (''args'', PDict [(''ratio'', PFloat NaN)])]
     \<in> set (yielded (fst (sse_generator demo_clock nan_agent ''hi'' 1)))"
  "wire (data_frame [(''type'', PStr ''tool_call''), (''name'', PStr ''resize''),
                     (''args'', PDict [(''ratio'', PFloat NaN)])])
     = ''data: {\"type\": \"tool_call\", \"name\": \"resize\", \"args\": {\"ratio\": NaN}}''
       @ [CHR 0x0A, CHR 0x0A]"
  "\<not> json_valid (data_text (frame_data
       (data_frame [(''type'', PStr ''tool_call''), (''name'', PStr ''resize''),
                    (''args'', PDict [(''ratio'', PFloat NaN)])])))"
  by code_simp+

lemma nan_frame_is_not_json:
  "data_frame [(''type'', PStr ''tool_call''), (''name'', PStr ''resize''),
               (''args'', PDict [(''ratio'', PFloat NaN)])]
     \<in> set (yielded (fst (sse_generator demo_clock nan_agent ''hi'' 1)))
   \<and> wire (data_frame [(''type'', PStr ''tool_call''), (''name'', PStr ''resize''),
                     (''args'', PDict [(''ratio'', PFloat NaN)])])
     = ''data: {\"type\": \"tool_call\", \"name\": \"resize\", \"args\": {\"ratio\": NaN}}''
       @ [CHR 0x0A, CHR 0x0A]
   \<and> \<not> json_valid (data_text (frame_data
       (data_frame [(''type'', PStr ''tool_call''), (''name'', PStr ''resize''),
                    (''args'', PDict [(''ratio'', PFloat NaN)])])))"
  using nan_frame_members by blast

end
